theory Spec2Isabelle
  imports Complex_Main "HOL-Library.Sublist"
begin

section \<open>Data model (src/types.ts)\<close>

text \<open>
  The converter reads a tree of \<open>FigmaNode\<close> values and writes two strings.
  JavaScript numbers are modelled as real numbers with exact arithmetic: the
  binary rounding of IEEE doubles, \<open>NaN\<close> and the infinities are outside the model.
  An optional field (\<open>field?: T\<close>) is an \<open>option\<close>, \<open>None\<close> standing for
  \<open>undefined\<close>. Strings are lists of 8-bit characters.
\<close>

record FigmaColor =
  color_r :: real
  color_g :: real
  color_b :: real
  color_a :: real

record BoundingBox =
  box_x :: real
  box_y :: real
  box_width :: real
  box_height :: real

record Vector =
  vec_x :: real
  vec_y :: real

record ColorStop =
  stop_position :: real
  stop_color :: FigmaColor

record Paint =
  paint_type :: string
  paint_color :: "FigmaColor option"
  paint_opacity :: "real option"
  paint_visible :: "bool option"
  gradientHandlePositions :: "Vector list option"
  gradientStops :: "ColorStop list option"

record TypeStyle =
  fontFamily :: string
  fontWeight :: real
  fontSize :: real
  letterSpacing :: "real option"
  lineHeightPx :: "real option"
  lineHeightPercent :: "real option"
  textAlignHorizontal :: "string option"
  textAlignVertical :: "string option"

record Effect =
  effect_type :: string
  effect_visible :: "bool option"
  effect_radius :: "real option"
  effect_color :: "FigmaColor option"
  effect_offset :: "Vector option"

text \<open>
  The fields of \<open>FigmaNode\<close> that \<open>convertWithStyles\<close> reads. \<open>rectangleCornerRadii\<close>
  and \<open>clipsContent\<close> are not declared in types.ts; the converter reads them through
  \<open>(node as any)\<close>. Every access to \<open>children\<close> is guarded by
  \<open>node.children && node.children.length > 0\<close>, so an absent list and an empty one
  are the same input to the converter: both are \<open>[]\<close> here.
\<close>

record NodeProps =
  node_id :: string
  node_type :: string
  node_visible :: "bool option"
  characters :: "string option"
  absoluteBoundingBox :: "BoundingBox option"
  fills :: "Paint list option"
  strokes :: "Paint list option"
  strokeWeight :: "real option"
  strokeAlign :: "string option"
  cornerRadius :: "real option"
  rectangleCornerRadii :: "real list option"
  node_style :: "TypeStyle option"
  effects :: "Effect list option"
  node_opacity :: "real option"
  layoutMode :: "string option"
  itemSpacing :: "real option"
  paddingLeft :: "real option"
  paddingRight :: "real option"
  paddingTop :: "real option"
  paddingBottom :: "real option"
  primaryAxisAlignItems :: "string option"
  counterAxisAlignItems :: "string option"
  clipsContent :: "bool option"

datatype FigmaNode = FigmaNode (props: NodeProps) (children: "FigmaNode list")

section \<open>JavaScript primitives used by the converter\<close>

text \<open>Truthiness of an optional number (\<open>undefined\<close> and \<open>0\<close> are falsy) and of an
  optional string (\<open>undefined\<close> and \<open>''\<close> are falsy); \<open>x || d\<close> on numbers.\<close>

definition truthy_num :: "real option \<Rightarrow> bool" where
  "truthy_num v = (case v of None \<Rightarrow> False | Some n \<Rightarrow> n \<noteq> 0)"

definition truthy_str :: "string option \<Rightarrow> bool" where
  "truthy_str v = (case v of None \<Rightarrow> False | Some s \<Rightarrow> s \<noteq> [])"

definition or_num :: "real option \<Rightarrow> real \<Rightarrow> real" where
  "or_num v d = (case v of None \<Rightarrow> d | Some n \<Rightarrow> if n = 0 then d else n)"

text \<open>\<open>Math.round\<close>: the nearest integer, a tie going towards plus infinity.\<close>

definition js_round :: "real \<Rightarrow> int" where
  "js_round v = \<lfloor>v + 1 / 2\<rfloor>"

text \<open>\<open>Math.round(v * 100) / 100\<close>, the rounding applied to every pixel value.\<close>

definition round2 :: "real \<Rightarrow> real" where
  "round2 v = of_int (js_round (v * 100)) / 100"

text \<open>
  Number to string, as a template literal does it. The decimal expansion is written
  out exactly (at most 20 fractional digits): this is what JavaScript prints for a
  value with a short decimal expansion and a magnitude between \<open>10^-6\<close> and \<open>10^21\<close>,
  where it uses positional notation.
\<close>

definition digit_char :: "nat \<Rightarrow> char" where
  "digit_char d =
     (if d = 0 then CHR ''0'' else if d = 1 then CHR ''1'' else if d = 2 then CHR ''2''
      else if d = 3 then CHR ''3'' else if d = 4 then CHR ''4'' else if d = 5 then CHR ''5''
      else if d = 6 then CHR ''6'' else if d = 7 then CHR ''7'' else if d = 8 then CHR ''8''
      else CHR ''9'')"

fun nat_str :: "nat \<Rightarrow> string" where
  "nat_str n = (if n < 10 then [digit_char n] else nat_str (n div 10) @ [digit_char (n mod 10)])"

declare nat_str.simps [simp del]

fun frac_digits :: "nat \<Rightarrow> real \<Rightarrow> string" where
  "frac_digits 0 f = []"
| "frac_digits (Suc k) f =
     (if f = 0 then []
      else digit_char (nat \<lfloor>f * 10\<rfloor>) # frac_digits k (f * 10 - of_int \<lfloor>f * 10\<rfloor>))"

definition pos_str :: "real \<Rightarrow> string" where
  "pos_str v = nat_str (nat \<lfloor>v\<rfloor>) @ (if frac v = 0 then [] else CHR ''.'' # frac_digits 20 (frac v))"

definition num_str :: "real \<Rightarrow> string" where
  "num_str v = (if v < 0 then CHR ''-'' # pos_str (- v) else pos_str v)"

text \<open>\<open>Array.prototype.join\<close> and \<open>String.prototype.includes\<close>.\<close>

fun join :: "string \<Rightarrow> string list \<Rightarrow> string" where
  "join sep [] = []"
| "join sep [s] = s"
| "join sep (s # t # ss) = s @ sep @ join sep (t # ss)"

fun str_includes :: "string \<Rightarrow> string \<Rightarrow> bool" where
  "str_includes [] t = (t = [])"
| "str_includes (c # s) t = (prefix t (c # s) \<or> str_includes s t)"

section \<open>Colours (rgbaToString, part_001 lines 536-546)\<close>

definition rgbaToString :: "FigmaColor \<Rightarrow> real option \<Rightarrow> string" where
  "rgbaToString color opacity =
     (let r = js_round (color_r color * 255);
          g = js_round (color_g color * 255);
          b = js_round (color_b color * 255);
          a = (case opacity of Some v \<Rightarrow> v | None \<Rightarrow> color_a color)
      in if a = 1
         then ''rgb('' @ num_str (of_int r) @ '', '' @ num_str (of_int g) @ '', ''
                @ num_str (of_int b) @ '')''
         else ''rgba('' @ num_str (of_int r) @ '', '' @ num_str (of_int g) @ '', ''
                @ num_str (of_int b) @ '', '' @ num_str a @ '')'')"

section \<open>Regular expressions of generateNodeStyles\<close>

text \<open>
  The five patterns the function matches are written as sequences of small matchers,
  each taking the text still to be matched and returning what is left of it. In every
  pattern a repetition (\<open>\s*\<close>, \<open>\s+\<close>, \<open>[0-9.]*\<close>, \<open>\d+\<close>) is followed by a character
  outside its class, so the greedy, longest run is the only one that can lead to a
  match; the one exception, \<open>\s+(.+);\<close>, is backtracked explicitly below. \<open>\s\<close> is
  the ASCII white space and \<open>.\<close> is any character but a line terminator.
\<close>

definition is_space :: "char \<Rightarrow> bool" where
  "is_space c = (c \<in> set [CHR '' '', CHR 0x09, CHR 0x0A, CHR 0x0B, CHR 0x0C, CHR 0x0D])"

definition is_digit :: "char \<Rightarrow> bool" where
  "is_digit c = (c \<in> set ''0123456789'')"

definition is_digdot :: "char \<Rightarrow> bool" where
  "is_digdot c = (is_digit c \<or> c = CHR ''.'')"

definition is_line_terminator :: "char \<Rightarrow> bool" where
  "is_line_terminator c = (c = CHR 0x0A \<or> c = CHR 0x0D)"

text \<open>A literal, \<open>\s*\<close>, \<open>\s+\<close>, and \<open>[^0][0-9.]*px\<close> (with \<open>[^0\s]\<close> when the flag is set).\<close>

definition re_lit :: "string \<Rightarrow> string \<Rightarrow> string option" where
  "re_lit p s = (if prefix p s then Some (drop (length p) s) else None)"

definition re_spaces0 :: "string \<Rightarrow> string option" where
  "re_spaces0 s = Some (dropWhile is_space s)"

definition re_spaces1 :: "string \<Rightarrow> string option" where
  "re_spaces1 s = (if takeWhile is_space s = [] then None else Some (dropWhile is_space s))"

definition re_corner :: "bool \<Rightarrow> string \<Rightarrow> string option" where
  "re_corner no_space s =
     (case s of
        [] \<Rightarrow> None
      | c # rest \<Rightarrow>
          if c = CHR ''0'' \<or> (no_space \<and> is_space c) then None
          else re_lit ''px'' (dropWhile is_digdot rest))"

text \<open>\<open>/^[^0][0-9.]*px [^0][0-9.]*px 0px 0px$/\<close> on the radius string (line 284).\<close>

definition match_top_only :: "string \<Rightarrow> bool" where
  "match_top_only s =
     (Option.bind (re_corner False s) (\<lambda>s.
      Option.bind (re_lit '' '' s) (\<lambda>s.
      Option.bind (re_corner False s) (\<lambda>s.
      re_lit '' 0px 0px'' s))) = Some [])"

text \<open>\<open>/^0px 0px [^0][0-9.]*px [^0][0-9.]*px$/\<close> on the radius string (line 289).\<close>

definition match_bottom_only :: "string \<Rightarrow> bool" where
  "match_bottom_only s =
     (Option.bind (re_lit ''0px 0px '' s) (\<lambda>s.
      Option.bind (re_corner False s) (\<lambda>s.
      Option.bind (re_lit '' '' s) (\<lambda>s.
      re_corner False s))) = Some [])"

text \<open>\<open>/^\s*border:\s*\d/\<close> on a style line (line 505).\<close>

definition match_border_line :: "string \<Rightarrow> bool" where
  "match_border_line s =
     (case Option.bind (re_spaces0 s) (\<lambda>s.
           Option.bind (re_lit ''border:'' s) re_spaces0) of
        Some (c # _) \<Rightarrow> is_digit c
      | _ \<Rightarrow> False)"

text \<open>\<open>/border-radius:\s*[^0\s][0-9.]*px\s+[^0\s][0-9.]*px\s+0px\s+0px/\<close>, searched
  anywhere in the line (line 510).\<close>

definition radius_top_at :: "string \<Rightarrow> bool" where
  "radius_top_at s =
     (Option.bind (re_lit ''border-radius:'' s) (\<lambda>s.
      Option.bind (re_spaces0 s) (\<lambda>s.
      Option.bind (re_corner True s) (\<lambda>s.
      Option.bind (re_spaces1 s) (\<lambda>s.
      Option.bind (re_corner True s) (\<lambda>s.
      Option.bind (re_spaces1 s) (\<lambda>s.
      Option.bind (re_lit ''0px'' s) (\<lambda>s.
      Option.bind (re_spaces1 s) (\<lambda>s.
      re_lit ''0px'' s)))))))) \<noteq> None)"

fun search_radius_top :: "string \<Rightarrow> bool" where
  "search_radius_top [] = False"
| "search_radius_top (c # s) = (radius_top_at (c # s) \<or> search_radius_top s)"

text \<open>\<open>/border-radius:\s*0px\s+0px\s+[^0\s][0-9.]*px\s+[^0\s][0-9.]*px/\<close> (line 524); its
  branch is empty, so only the pattern is recorded here.\<close>

definition radius_bottom_at :: "string \<Rightarrow> bool" where
  "radius_bottom_at s =
     (Option.bind (re_lit ''border-radius:'' s) (\<lambda>s.
      Option.bind (re_spaces0 s) (\<lambda>s.
      Option.bind (re_lit ''0px'' s) (\<lambda>s.
      Option.bind (re_spaces1 s) (\<lambda>s.
      Option.bind (re_lit ''0px'' s) (\<lambda>s.
      Option.bind (re_spaces1 s) (\<lambda>s.
      Option.bind (re_corner True s) (\<lambda>s.
      Option.bind (re_spaces1 s) (\<lambda>s.
      re_corner True s)))))))) \<noteq> None)"

text \<open>
  \<open>/border:\s*(\d+(?:\.\d+)?px)\s+solid\s+(.+);/\<close> with its two groups (line 511).
  \<open>(.+);\<close> takes the longest run of characters on the line that is followed by a
  semicolon; the \<open>\s+\<close> before it gives back white space, one character at a time,
  when no such run starts after all of it.
\<close>

definition re_dot_plus_semi :: "string \<Rightarrow> string option" where
  "re_dot_plus_semi s =
     (let run = takeWhile (\<lambda>c. \<not> is_line_terminator c) s;
          idxs = filter (\<lambda>j. run ! j = CHR '';'') [1 ..< length run]
      in if idxs = [] then None else Some (take (last idxs) run))"

fun re_spaces_then_color :: "nat \<Rightarrow> string \<Rightarrow> string option" where
  "re_spaces_then_color 0 s = None"
| "re_spaces_then_color (Suc k) s =
     (case re_dot_plus_semi (drop (Suc k) s) of
        Some color \<Rightarrow> Some color
      | None \<Rightarrow> re_spaces_then_color k s)"

definition re_weight :: "string \<Rightarrow> (string \<times> string) option" where
  "re_weight s =
     (let d1 = takeWhile is_digit s; s1 = dropWhile is_digit s
      in if d1 = [] then None
         else (case s1 of
                 c # s2 \<Rightarrow>
                   if c = CHR ''.'' then
                     (let d2 = takeWhile is_digit s2; s3 = dropWhile is_digit s2
                      in if d2 \<noteq> [] \<and> prefix ''px'' s3
                         then Some (d1 @ ''.'' @ d2 @ ''px'', drop 2 s3) else None)
                   else if prefix ''px'' s1 then Some (d1 @ ''px'', drop 2 s1) else None
               | [] \<Rightarrow> None))"

definition border_match_at :: "string \<Rightarrow> (string \<times> string) option" where
  "border_match_at s =
     Option.bind (re_lit ''border:'' s) (\<lambda>s.
     Option.bind (re_spaces0 s) (\<lambda>s.
     Option.bind (re_weight s) (\<lambda>(weight, s).
     Option.bind (re_spaces1 s) (\<lambda>s.
     Option.bind (re_lit ''solid'' s) (\<lambda>s.
     Option.bind (re_spaces_then_color (length (takeWhile is_space s)) s) (\<lambda>color.
     Some (weight, color)))))))"

fun border_match :: "string \<Rightarrow> (string \<times> string) option" where
  "border_match [] = None"
| "border_match (c # s) =
     (case border_match_at (c # s) of
        Some m \<Rightarrow> Some m
      | None \<Rightarrow> border_match s)"

section \<open>Style resolution (generateNodeStyles, part_001 lines 190-531)\<close>

text \<open>
  The function fills one array, \<open>styles\<close>, section by section. Each section is a
  definition here; a section that reads or rewrites the lines pushed so far takes
  them as an argument and returns the new array.
\<close>

definition nl :: string where
  "nl = [CHR 0x0A]"

definition or_str :: "string option \<Rightarrow> string \<Rightarrow> string" where
  "or_str v d = (case v of None \<Rightarrow> d | Some s \<Rightarrow> if s = [] then d else s)"

definition px :: "real \<Rightarrow> string" where
  "px v = num_str (round2 v) @ ''px''"

text \<open>\<open>if (parent.paddingLeft) left -= parent.paddingLeft\<close> (lines 207-208).\<close>

definition minus_padding :: "real \<Rightarrow> real option \<Rightarrow> real" where
  "minus_padding v pad = (case pad of None \<Rightarrow> v | Some q \<Rightarrow> if q \<noteq> 0 then v - q else v)"

text \<open>Position and size (lines 194-239).\<close>

definition positionStyles :: "NodeProps \<Rightarrow> NodeProps option \<Rightarrow> string list" where
  "positionStyles node parent =
     (case absoluteBoundingBox node of
        None \<Rightarrow> []
      | Some box \<Rightarrow>
          (let (left, top) =
                 (case parent of
                    None \<Rightarrow> (box_x box, box_y box)
                  | Some p \<Rightarrow>
                      (case absoluteBoundingBox p of
                         None \<Rightarrow> (box_x box, box_y box)
                       | Some parentBox \<Rightarrow>
                           (minus_padding (box_x box - box_x parentBox) (paddingLeft p),
                            minus_padding (box_y box - box_y parentBox) (paddingTop p))))
           in (case parent of
                 None \<Rightarrow> [''  position: relative;'']
               | Some p \<Rightarrow>
                   if truthy_str (layoutMode p) then [''  position: relative;'']
                   else [''  position: absolute;'',
                         ''  left: '' @ px left @ '';'',
                         ''  top: '' @ px top @ '';''])
              @ [''  width: '' @ px (box_width box) @ '';'']
              @ (if node_type node \<noteq> ''TEXT''
                 then [''  height: '' @ px (box_height box) @ '';'']
                 else [''  min-height: '' @ px (box_height box) @ '';''])))"

text \<open>
  \<open>Math.atan2\<close> on finite arguments (signed zeros are not distinguished) and the
  factor \<open>180 / Math.PI\<close>. Both are transcendental: they have no executable
  equation, and evaluation leaves them as they stand.
\<close>

definition js_atan2 :: "real \<Rightarrow> real \<Rightarrow> real" where
  "js_atan2 dy dx =
     (if dx > 0 then arctan (dy / dx)
      else if dx < 0 then (if dy \<ge> 0 then arctan (dy / dx) + pi else arctan (dy / dx) - pi)
      else if dy > 0 then pi / 2 else if dy < 0 then - pi / 2 else 0)"

definition to_degrees :: "real \<Rightarrow> real" where
  "to_degrees v = v * (180 / pi)"

declare js_atan2_def [code del]

declare to_degrees_def [code del]

text \<open>generateLinearGradient (lines 551-575); the angle is lines 557-564.\<close>

definition gradientAngle :: "Vector list \<Rightarrow> real" where
  "gradientAngle handles =
     (if length handles \<ge> 2
      then to_degrees (js_atan2 (vec_y (handles ! 1) - vec_y (handles ! 0))
                                (vec_x (handles ! 1) - vec_x (handles ! 0))) + 90
      else 90)"

definition stopText :: "ColorStop \<Rightarrow> string" where
  "stopText stop =
     rgbaToString (stop_color stop) None @ '' ''
     @ num_str (of_int (js_round (stop_position stop * 100))) @ ''%''"

definition generateLinearGradient :: "Paint \<Rightarrow> string" where
  "generateLinearGradient fill =
     (case gradientStops fill of
        None \<Rightarrow> ''transparent''
      | Some stops \<Rightarrow>
          (case gradientHandlePositions fill of
             None \<Rightarrow> ''transparent''
           | Some handles \<Rightarrow>
               ''linear-gradient('' @ num_str (gradientAngle handles) @ ''deg, ''
               @ join '', '' (map stopText stops) @ '')''))"

text \<open>Background colour and fills (lines 242-253).\<close>

definition fillStyles :: "NodeProps \<Rightarrow> string list" where
  "fillStyles node =
     (case fills node of
        None \<Rightarrow> []
      | Some [] \<Rightarrow> []
      | Some (fill # _) \<Rightarrow>
          if paint_visible fill \<noteq> Some False then
            (if paint_type fill = ''SOLID'' \<and> paint_color fill \<noteq> None then
               (case paint_color fill of
                  Some c \<Rightarrow> [''  background-color: '' @ rgbaToString c (paint_opacity fill) @ '';'']
                | None \<Rightarrow> [])
             else if paint_type fill = ''GRADIENT_LINEAR'' \<and> gradientStops fill \<noteq> None then
               [''  background: '' @ generateLinearGradient fill @ '';'']
             else [])
          else [])"

text \<open>Border radius: the flags and the radius string (lines 255-293).\<close>

record RadiusInfo =
  hasTopRadius :: bool
  hasBottomRadius :: bool
  radiiString :: string

definition radiusFromNode :: "NodeProps \<Rightarrow> RadiusInfo" where
  "radiusFromNode node =
     (case rectangleCornerRadii node of
        Some radii \<Rightarrow>
          (case map round2 radii of
             [r_tl, r_tr, r_br, r_bl] \<Rightarrow>
               \<lparr>hasTopRadius = (r_tl > 0 \<or> r_tr > 0),
                hasBottomRadius = (r_br > 0 \<or> r_bl > 0),
                radiiString =
                  (if r_tl \<noteq> r_tr \<or> r_tr \<noteq> r_br \<or> r_br \<noteq> r_bl \<or> r_tl \<noteq> 0
                   then num_str r_tl @ ''px '' @ num_str r_tr @ ''px '' @ num_str r_br
                          @ ''px '' @ num_str r_bl @ ''px''
                   else [])\<rparr>
           | _ \<Rightarrow> \<lparr>hasTopRadius = False, hasBottomRadius = False, radiiString = []\<rparr>)
      | None \<Rightarrow>
          (case cornerRadius node of
             Some cr \<Rightarrow>
               if cr > 0
               then \<lparr>hasTopRadius = True, hasBottomRadius = True, radiiString = px cr\<rparr>
               else \<lparr>hasTopRadius = False, hasBottomRadius = False, radiiString = []\<rparr>
           | None \<Rightarrow> \<lparr>hasTopRadius = False, hasBottomRadius = False, radiiString = []\<rparr>))"

definition borderRadiusInfo :: "NodeProps \<Rightarrow> RadiusInfo" where
  "borderRadiusInfo node =
     (let info = radiusFromNode node
      in if radiiString info \<noteq> [] then
           (if match_top_only (radiiString info)
            then info\<lparr>hasTopRadius := True, hasBottomRadius := False\<rparr>
            else if match_bottom_only (radiiString info)
            then info\<lparr>hasTopRadius := False, hasBottomRadius := True\<rparr>
            else info)
         else info)"

text \<open>Strokes (lines 295-334).\<close>

definition borderSides :: "string list \<Rightarrow> string \<Rightarrow> string \<Rightarrow> string list" where
  "borderSides sides weight color =
     map (\<lambda>side. ''  border-'' @ side @ '': '' @ weight @ '' solid '' @ color @ '';'') sides"

definition strokeStyles :: "NodeProps \<Rightarrow> RadiusInfo \<Rightarrow> string list" where
  "strokeStyles node info =
     (case strokes node of
        None \<Rightarrow> []
      | Some [] \<Rightarrow> []
      | Some (stroke # _) \<Rightarrow>
          (case strokeWeight node of
             None \<Rightarrow> []
           | Some sw \<Rightarrow>
               if sw = 0 then []
               else if paint_visible stroke \<noteq> Some False then
                 (case paint_color stroke of
                    None \<Rightarrow> []
                  | Some c \<Rightarrow>
                      (let color = rgbaToString c (paint_opacity stroke);
                           weight = px sw;
                           align = or_str (strokeAlign node) ''INSIDE''
                       in if align = ''INSIDE'' then
                            ''  box-sizing: border-box;''
                            # (if hasTopRadius info \<and> \<not> hasBottomRadius info
                               then borderSides [''left'', ''right'', ''top''] weight color
                               else if \<not> hasTopRadius info \<and> hasBottomRadius info
                               then borderSides [''left'', ''right'', ''bottom''] weight color
                               else [''  border: '' @ weight @ '' solid '' @ color @ '';''])
                          else if align = ''CENTER'' then
                            [''  border: '' @ weight @ '' solid '' @ color @ '';'']
                          else
                            [''  box-shadow: 0 0 0 '' @ weight @ '' '' @ color @ '';'']))
               else []))"

text \<open>Apply border radius (lines 336-339) and opacity (lines 341-344).\<close>

definition radiusStyles :: "RadiusInfo \<Rightarrow> string list" where
  "radiusStyles info =
     (if radiiString info \<noteq> [] then [''  border-radius: '' @ radiiString info @ '';''] else [])"

definition opacityStyles :: "NodeProps \<Rightarrow> string list" where
  "opacityStyles node =
     (case node_opacity node of
        None \<Rightarrow> []
      | Some v \<Rightarrow> if v < 1 then [''  opacity: '' @ num_str v @ '';''] else [])"

text \<open>
  Text styles (lines 346-409). \<open>toLowerCase\<close> is modelled on ASCII letters.
  \<open>styles.some(s => s.includes('display: flex'))\<close> reads the lines pushed so far, and the
  text colour removes the first line that contains \<open>background-color\<close>.
\<close>

definition to_lower :: "char \<Rightarrow> char" where
  "to_lower c =
     (let n = (of_char c :: nat) in if 65 \<le> n \<and> n \<le> 90 then char_of (n + 32) else c)"

fun remove_first :: "('a \<Rightarrow> bool) \<Rightarrow> 'a list \<Rightarrow> 'a list" where
  "remove_first P [] = []"
| "remove_first P (x # xs) = (if P x then xs else x # remove_first P xs)"

definition hasDisplayFlex :: "string list \<Rightarrow> bool" where
  "hasDisplayFlex styles = list_ex (\<lambda>s. str_includes s ''display: flex'') styles"

definition textMetrics :: "TypeStyle \<Rightarrow> string list" where
  \<open>textMetrics textStyle =
     [''  font-family: "'' @ fontFamily textStyle @ ''", sans-serif;'',
      ''  font-size: '' @ px (fontSize textStyle) @ '';'',
      ''  font-weight: '' @ num_str (fontWeight textStyle) @ '';'']
     @ (case letterSpacing textStyle of
          None \<Rightarrow> []
        | Some v \<Rightarrow> if v \<noteq> 0 then [''  letter-spacing: '' @ px v @ '';''] else [])
     @ (if truthy_num (lineHeightPx textStyle) then
          (case lineHeightPx textStyle of
             Some v \<Rightarrow> [''  line-height: '' @ px v @ '';'']
           | None \<Rightarrow> [])
        else if truthy_num (lineHeightPercent textStyle) then
          (case lineHeightPercent textStyle of
             Some v \<Rightarrow> [''  line-height: '' @ num_str (of_int (js_round v) / 100) @ '';'']
           | None \<Rightarrow> [])
        else [])\<close>

definition textAlignH :: "TypeStyle \<Rightarrow> string list \<Rightarrow> string list" where
  "textAlignH textStyle styles =
     (if truthy_str (textAlignHorizontal textStyle) then
        (case textAlignHorizontal textStyle of
           None \<Rightarrow> styles
         | Some h \<Rightarrow>
             (let align = map to_lower h;
                  styles1 = styles @ [''  text-align: '' @ align @ '';'']
              in if align = ''center'' then
                   (if \<not> hasDisplayFlex styles1 then styles1 @ [''  display: flex;''] else styles1)
                   @ [''  justify-content: center;'']
                 else styles1))
      else styles)"

definition textAlignV :: "TypeStyle \<Rightarrow> string list \<Rightarrow> string list" where
  "textAlignV textStyle styles =
     (if truthy_str (textAlignVertical textStyle) then
        (case textAlignVertical textStyle of
           None \<Rightarrow> styles
         | Some vAlign \<Rightarrow>
             (if \<not> hasDisplayFlex styles then styles @ [''  display: flex;''] else styles)
             @ (if vAlign = ''TOP'' then [''  align-items: flex-start;'']
                else if vAlign = ''CENTER'' then [''  align-items: center;'']
                else if vAlign = ''BOTTOM'' then [''  align-items: flex-end;'']
                else []))
      else styles)"

definition textColor :: "NodeProps \<Rightarrow> string list \<Rightarrow> string list" where
  "textColor node styles =
     (case fills node of
        None \<Rightarrow> styles
      | Some [] \<Rightarrow> styles
      | Some (fill # _) \<Rightarrow>
          if paint_type fill = ''SOLID'' then
            (case paint_color fill of
               None \<Rightarrow> styles
             | Some c \<Rightarrow>
                 remove_first (\<lambda>s. str_includes s ''background-color'')
                   (styles @ [''  color: '' @ rgbaToString c (paint_opacity fill) @ '';'']))
          else styles)"

definition textStyles :: "NodeProps \<Rightarrow> string list \<Rightarrow> string list" where
  "textStyles node styles =
     (if node_type node = ''TEXT'' then
        (case node_style node of
           None \<Rightarrow> styles
         | Some textStyle \<Rightarrow>
             textColor node (textAlignV textStyle (textAlignH textStyle
               (styles @ textMetrics textStyle)))
             @ [''  white-space: pre-wrap;'', ''  word-wrap: break-word;''])
      else styles)"

text \<open>
  Layout (lines 411-471). The two \<open>alignMap\<close> tables are looked up with a default of
  \<open>flex-start\<close>; keys inherited from \<open>Object.prototype\<close> are not modelled.
  \<open>styles.splice(i, 0, line)\<close> inserts a line at index \<open>i\<close>.
\<close>

definition insert_at :: "nat \<Rightarrow> 'a \<Rightarrow> 'a list \<Rightarrow> 'a list" where
  "insert_at i v xs = take i xs @ [v] @ drop i xs"

definition primaryAlign :: "string \<Rightarrow> string" where
  "primaryAlign k =
     (if k = ''MIN'' then ''flex-start'' else if k = ''CENTER'' then ''center''
      else if k = ''MAX'' then ''flex-end'' else if k = ''SPACE_BETWEEN'' then ''space-between''
      else ''flex-start'')"

definition counterAlign :: "string \<Rightarrow> string" where
  "counterAlign k =
     (if k = ''MIN'' then ''flex-start'' else if k = ''CENTER'' then ''center''
      else if k = ''MAX'' then ''flex-end'' else ''flex-start'')"

definition flexStyles :: "NodeProps \<Rightarrow> string \<Rightarrow> string list" where
  "flexStyles node mode =
     [''  display: flex;'']
     @ (if mode = ''HORIZONTAL'' then [''  flex-direction: row;'']
        else if mode = ''VERTICAL'' then [''  flex-direction: column;''] else [])
     @ (case itemSpacing node of
          None \<Rightarrow> []
        | Some v \<Rightarrow> if v \<noteq> 0 then [''  gap: '' @ px v @ '';''] else [])
     @ (if truthy_num (paddingLeft node) \<or> truthy_num (paddingRight node)
           \<or> truthy_num (paddingTop node) \<or> truthy_num (paddingBottom node)
        then [''  padding: '' @ px (or_num (paddingTop node) 0) @ '' ''
                @ px (or_num (paddingRight node) 0) @ '' ''
                @ px (or_num (paddingBottom node) 0) @ '' ''
                @ px (or_num (paddingLeft node) 0) @ '';'']
        else [])
     @ (if truthy_str (primaryAxisAlignItems node) then
          (case primaryAxisAlignItems node of
             Some k \<Rightarrow> [''  justify-content: '' @ primaryAlign k @ '';'']
           | None \<Rightarrow> [])
        else [])
     @ (if truthy_str (counterAxisAlignItems node) then
          (case counterAxisAlignItems node of
             Some k \<Rightarrow> [''  align-items: '' @ counterAlign k @ '';'']
           | None \<Rightarrow> [])
        else [])"

definition forcePosition :: "NodeProps \<Rightarrow> NodeProps \<Rightarrow> string list \<Rightarrow> string list" where
  "forcePosition node p styles =
     (if \<not> list_ex (\<lambda>s. str_includes s ''position:'') styles then
        (let styles1 = ''  position: absolute;'' # styles
         in case absoluteBoundingBox node of
              None \<Rightarrow> styles1
            | Some box \<Rightarrow>
                (case absoluteBoundingBox p of
                   None \<Rightarrow> styles1
                 | Some parentBox \<Rightarrow>
                     (let left = round2 (box_x box - box_x parentBox);
                          top = round2 (box_y box - box_y parentBox);
                          styles2 = (if left \<noteq> 0
                                     then insert_at 1 (''  left: '' @ num_str left @ ''px;'') styles1
                                     else styles1)
                      in if top \<noteq> 0
                         then insert_at (if left \<noteq> 0 then 2 else 1)
                                (''  top: '' @ num_str top @ ''px;'') styles2
                         else styles2)))
      else styles)"

definition layoutStyles :: "NodeProps \<Rightarrow> NodeProps option \<Rightarrow> string list \<Rightarrow> string list" where
  "layoutStyles node parent styles =
     (if truthy_str (layoutMode node) then
        (case layoutMode node of
           None \<Rightarrow> styles
         | Some mode \<Rightarrow>
             (case parent of
                None \<Rightarrow> styles @ flexStyles node mode
              | Some p \<Rightarrow> forcePosition node p (styles @ flexStyles node mode)))
      else styles)"

text \<open>Effects (lines 473-496) and clipping (lines 498-501).\<close>

definition shadowTerm :: "Effect \<Rightarrow> string list" where
  "shadowTerm effect =
     (if effect_visible effect \<noteq> Some False then
        (case effect_offset effect of
           None \<Rightarrow> []
         | Some off \<Rightarrow>
             (case effect_color effect of
                None \<Rightarrow> []
              | Some c \<Rightarrow>
                  (let body = px (vec_x off) @ '' '' @ px (vec_y off) @ '' ''
                              @ px (or_num (effect_radius effect) 0) @ '' '' @ rgbaToString c None
                   in if effect_type effect = ''DROP_SHADOW'' then [body]
                      else if effect_type effect = ''INNER_SHADOW'' then [''inset '' @ body]
                      else [])))
      else [])"

definition effectStyles :: "NodeProps \<Rightarrow> string list" where
  "effectStyles node =
     (case effects node of
        None \<Rightarrow> []
      | Some es \<Rightarrow>
          (let shadows = concat (map shadowTerm es)
           in if shadows \<noteq> [] then [''  box-shadow: '' @ join '', '' shadows @ '';''] else []))"

definition clipStyles :: "NodeProps \<Rightarrow> string list" where
  "clipStyles node = (if clipsContent node = Some True then [''  overflow: hidden;''] else [])"

text \<open>
  Post-processing (lines 503-528): when a line contains \<open>border-radius:\<close>, a line is a
  uniform border, and the first radius line shows the top-rounded pattern, the
  uniform border line is replaced by its left, right and top sides.
\<close>

definition index_of :: "'a \<Rightarrow> 'a list \<Rightarrow> nat" where
  "index_of v xs = length (takeWhile (\<lambda>y. y \<noteq> v) xs)"

definition postProcess :: "string list \<Rightarrow> string list" where
  "postProcess styles =
     (case find (\<lambda>s. str_includes s ''border-radius:'') styles of
        None \<Rightarrow> styles
      | Some borderRadiusLine \<Rightarrow>
          (case find match_border_line styles of
             None \<Rightarrow> styles
           | Some borderLine \<Rightarrow>
               if search_radius_top borderRadiusLine then
                 (case border_match borderLine of
                    None \<Rightarrow> styles
                  | Some (weight, color) \<Rightarrow>
                      (let borderIndex = index_of borderLine styles
                       in take borderIndex styles
                          @ [''  border-left: '' @ weight @ '' solid '' @ color @ '';'',
                             ''  border-right: '' @ weight @ '' solid '' @ color @ '';'',
                             ''  border-top: '' @ weight @ '' solid '' @ color @ '';'']
                          @ drop (Suc borderIndex) styles))
               else styles))"

text \<open>The whole function: the lines collected by lines 191-501, the post-processing,
  then \<open>styles.join('\n')\<close>.\<close>

definition collectStyles :: "NodeProps \<Rightarrow> NodeProps option \<Rightarrow> string list" where
  "collectStyles node parent =
     (let info = borderRadiusInfo node
      in layoutStyles node parent
           (textStyles node
              (positionStyles node parent @ fillStyles node @ strokeStyles node info
               @ radiusStyles info @ opacityStyles node))
         @ effectStyles node @ clipStyles node)"

definition styleLines :: "NodeProps \<Rightarrow> NodeProps option \<Rightarrow> string list" where
  "styleLines node parent = postProcess (collectStyles node parent)"

definition generateNodeStyles :: "FigmaNode \<Rightarrow> FigmaNode option \<Rightarrow> string" where
  "generateNodeStyles node parent = join nl (styleLines (props node) (map_option props parent))"

section \<open>Traversal and markup (part_001 lines 78-86, 103-185, 580-589)\<close>

text \<open>
  A converter instance holds the table of class names and the counter. The traversal
  threads the instance and the array \<open>nodeStyles\<close> of (class name, node, parent)
  entries, in the order in which JavaScript evaluates the calls.
\<close>

record Converter =
  cssClasses :: "string \<rightharpoonup> string"
  classCounter :: nat

type_synonym StyleEntry = "string \<times> FigmaNode \<times> FigmaNode option"

type_synonym RunState = "Converter \<times> StyleEntry list"

definition escapeChar :: "char \<Rightarrow> string" where
  "escapeChar c =
     (if c = CHR ''&'' then ''&amp;''
      else if c = CHR ''<'' then ''&lt;''
      else if c = CHR ''>'' then ''&gt;''
      else if c = CHR 0x22 then ''&quot;''
      else if c = CHR 0x27 then ''&#039;''
      else [c])"

definition escapeHtml :: "string \<Rightarrow> string" where
  "escapeHtml text = concat (map escapeChar text)"

definition getClassName :: "Converter \<Rightarrow> FigmaNode \<Rightarrow> string \<times> Converter" where
  "getClassName conv node =
     (case cssClasses conv (node_id (props node)) of
        Some name \<Rightarrow> (name, conv)
      | None \<Rightarrow>
          (let name = ''figma-node-'' @ nat_str (classCounter conv)
           in (name, conv\<lparr>cssClasses := (cssClasses conv)(node_id (props node) \<mapsto> name),
                          classCounter := classCounter conv + 1\<rparr>)))"

definition indent :: "nat \<Rightarrow> string" where
  "indent depth = concat (replicate depth ''  '')"

definition recognizedKinds :: "string list" where
  "recognizedKinds =
     [''RECTANGLE'', ''ELLIPSE'', ''VECTOR'', ''FRAME'', ''GROUP'', ''INSTANCE'', ''COMPONENT'']"

fun generateHtmlWithStyles ::
      "FigmaNode \<Rightarrow> nat \<Rightarrow> FigmaNode option \<Rightarrow> RunState \<Rightarrow> string \<times> RunState"
  and childrenHtml ::
      "FigmaNode list \<Rightarrow> nat \<Rightarrow> FigmaNode option \<Rightarrow> RunState \<Rightarrow> string list \<times> RunState"
where
  \<open>generateHtmlWithStyles (FigmaNode p cs) depth parent st =
     (if node_visible p = Some False then ([], st)
      else if node_type p = ''DOCUMENT'' \<or> node_type p = ''CANVAS'' then
        (if cs \<noteq> [] then
           (let (hs, st1) = childrenHtml cs depth None st in (join nl hs, st1))
         else ([], st))
      else if node_type p = ''TEXT'' then
        (let (className, conv1) = getClassName (fst st) (FigmaNode p cs);
             st1 = (conv1, snd st @ [(className, FigmaNode p cs, parent)]);
             text = (case characters p of None \<Rightarrow> [] | Some t \<Rightarrow> t)
         in (indent depth @ ''<div class="'' @ className @ ''">'' @ escapeHtml text @ ''</div>'',
             st1))
      else if node_type p \<in> set recognizedKinds then
        (let (divClass, conv1) = getClassName (fst st) (FigmaNode p cs);
             st1 = (conv1, snd st @ [(divClass, FigmaNode p cs, parent)]);
             html = indent depth @ ''<div class="'' @ divClass @ ''">''
         in if cs \<noteq> [] then
              (let (hs, st2) = childrenHtml cs (depth + 1) (Some (FigmaNode p cs)) st1
               in (html @ nl @ join nl hs @ nl @ indent depth @ ''</div>'', st2))
            else (html @ ''</div>'', st1))
      else
        (if cs \<noteq> [] then
           (let (hs, st1) = childrenHtml cs depth parent st in (join nl hs, st1))
         else ([], st)))\<close>
| \<open>childrenHtml [] depth parent st = ([], st)\<close>
| \<open>childrenHtml (c # cs) depth parent st =
     (let (h, st1) = generateHtmlWithStyles c depth parent st;
          (hs, st2) = childrenHtml cs depth parent st1
      in (h # hs, st2))\<close>

text \<open>generateCssFromNodes (lines 172-185): the two fixed rules, then one rule for each
  entry whose style text is not empty.\<close>

definition cssHeader :: string where
  \<open>cssHeader =
     ''/* Generated CSS from Figma */'' @ nl @ nl
     @ ''* {'' @ nl @ ''  box-sizing: border-box;'' @ nl @ ''}'' @ nl @ nl
     @ ''body {'' @ nl @ ''  margin: 0;'' @ nl @ ''  padding: 0;'' @ nl
     @ ''  font-family: -apple-system, BlinkMacSystemFont, "Segoe UI", Roboto, sans-serif;'' @ nl
     @ ''  display: flex;'' @ nl @ ''  justify-content: center;'' @ nl
     @ ''  align-items: center;'' @ nl @ ''  min-height: 100vh;'' @ nl
     @ ''  background-color: #f5f5f5;'' @ nl @ ''}'' @ nl @ nl\<close>

definition cssRule :: "StyleEntry \<Rightarrow> string" where
  "cssRule entry =
     (case entry of (className, node, parent) \<Rightarrow>
        (let styles = generateNodeStyles node parent
         in if styles \<noteq> [] then ''.'' @ className @ '' {'' @ nl @ styles @ ''}'' @ nl @ nl
            else []))"

definition generateCssFromNodes :: "StyleEntry list \<Rightarrow> string" where
  "generateCssFromNodes nodeStyles = foldl (\<lambda>css entry. css @ cssRule entry) cssHeader nodeStyles"

text \<open>convertWithStyles (lines 103-113) clears the table and the counter first. It
  returns the two texts and the instance as the call leaves it.\<close>

definition convertWithStyles :: "Converter \<Rightarrow> FigmaNode \<Rightarrow> (string \<times> string) \<times> Converter" where
  "convertWithStyles conv node =
     (let conv0 = conv\<lparr>cssClasses := Map.empty, classCounter := 0\<rparr>;
          (html, st) = generateHtmlWithStyles node 0 None (conv0, []);
          css = generateCssFromNodes (snd st)
      in ((html, css), fst st))"

section \<open>Example inputs\<close>

text \<open>A node that carries nothing but an id and a kind, and the pieces from which the
  concrete inputs below are built.\<close>

definition bareProps :: "string \<Rightarrow> string \<Rightarrow> NodeProps" where
  "bareProps i k =
     \<lparr>node_id = i, node_type = k, node_visible = None, characters = None,
      absoluteBoundingBox = None, fills = None, strokes = None, strokeWeight = None,
      strokeAlign = None, cornerRadius = None, rectangleCornerRadii = None,
      node_style = None, effects = None, node_opacity = None, layoutMode = None,
      itemSpacing = None, paddingLeft = None, paddingRight = None, paddingTop = None,
      paddingBottom = None, primaryAxisAlignItems = None, counterAxisAlignItems = None,
      clipsContent = None\<rparr>"

definition black :: FigmaColor where
  "black = \<lparr>color_r = 0, color_g = 0, color_b = 0, color_a = 1\<rparr>"

definition solidPaint :: "FigmaColor \<Rightarrow> Paint" where
  "solidPaint c =
     \<lparr>paint_type = ''SOLID'', paint_color = Some c, paint_opacity = None,
      paint_visible = None, gradientHandlePositions = None, gradientStops = None\<rparr>"

definition newConverter :: Converter where
  "newConverter = \<lparr>cssClasses = Map.empty, classCounter = 0\<rparr>"




definition strokedRect :: "string option \<Rightarrow> real list \<Rightarrow> NodeProps" where
  "strokedRect align radii =
     (bareProps ''1:3'' ''RECTANGLE'')
       \<lparr>strokes := Some [solidPaint black], strokeWeight := Some 1, strokeAlign := align,
        rectangleCornerRadii := Some radii\<rparr>"

definition plainStyle :: TypeStyle where
  "plainStyle =
     \<lparr>fontFamily = ''Inter'', fontWeight = 400, fontSize = 16, letterSpacing = None,
      lineHeightPx = None, lineHeightPercent = None, textAlignHorizontal = None,
      textAlignVertical = None\<rparr>"

definition textNode :: "TypeStyle option \<Rightarrow> bool option \<Rightarrow> NodeProps" where
  "textNode style_block fill_visible =
     (bareProps ''1:4'' ''TEXT'')
       \<lparr>node_style := style_block,
        fills := Some [(solidPaint black)\<lparr>paint_visible := fill_visible\<rparr>]\<rparr>"

definition hiddenFrame :: FigmaNode where
  "hiddenFrame =
     FigmaNode ((bareProps ''2:1'' ''FRAME'')\<lparr>node_visible := Some False\<rparr>)
       [FigmaNode ((bareProps ''2:2'' ''TEXT'')\<lparr>characters := Some ''hidden''\<rparr>) []]"

definition smallTree :: FigmaNode where
  "smallTree =
     FigmaNode (bareProps ''3:1'' ''FRAME'')
       [FigmaNode ((bareProps ''3:2'' ''TEXT'')\<lparr>characters := Some ''a < b''\<rparr>) []]"

definition gradientPaint :: "ColorStop list option \<Rightarrow> Vector list option \<Rightarrow> Paint" where
  "gradientPaint stops handles =
     \<lparr>paint_type = ''GRADIENT_LINEAR'', paint_color = None, paint_opacity = None,
      paint_visible = None, gradientHandlePositions = handles, gradientStops = stops\<rparr>"

definition gradientRect :: "ColorStop list option \<Rightarrow> Vector list option \<Rightarrow> NodeProps" where
  "gradientRect stops handles =
     (bareProps ''1:6'' ''RECTANGLE'')\<lparr>fills := Some [gradientPaint stops handles]\<rparr>"

section \<open>Notions used in the statements and proofs\<close>

text \<open>The characters of a printed number; the property name of a style line (the text
  between the two leading blanks and the first colon); a line with one of the given
  property names that is not a uniform border line; the three lines that replace a
  uniform border.\<close>

definition num_char :: "char \<Rightarrow> bool" where
  "num_char c = (is_digdot c \<or> c = CHR ''-'')"

definition line_prop :: "string \<Rightarrow> string" where
  "line_prop l = takeWhile (\<lambda>c. c \<noteq> CHR '':'') (drop 2 l)"

definition side_lines :: "string \<Rightarrow> string \<Rightarrow> string list" where
  "side_lines weight color =
     [''  border-left: '' @ weight @ '' solid '' @ color @ '';'',
      ''  border-right: '' @ weight @ '' solid '' @ color @ '';'',
      ''  border-top: '' @ weight @ '' solid '' @ color @ '';'']"

definition plain :: "string list \<Rightarrow> string \<Rightarrow> bool" where
  "plain names x = (line_prop x \<in> set names \<and> \<not> match_border_line x)"

definition flexProps :: "string list" where
  "flexProps = [''display'', ''flex-direction'', ''gap'', ''padding'', ''justify-content'',
                ''align-items'']"

definition textProps :: "string list" where
  "textProps = [''font-family'', ''font-size'', ''font-weight'', ''letter-spacing'',
                ''line-height'', ''text-align'', ''display'', ''justify-content'',
                ''align-items'', ''color'', ''white-space'', ''word-wrap'']"

definition color_char :: "char \<Rightarrow> bool" where
  "color_char c = (num_char c \<or> c \<in> set ''rgba(), '')"

text \<open>
  The traversal seen as a list: \<open>emitted\<close> lists, in document order, the nodes for which
  \<open>generateHtmlWithStyles\<close> pushes a style entry, each with the parent it is pushed with
  (it reads the visibility flag and the kind only), and \<open>register\<close> is one such push.
  \<open>nodeCount\<close> is the number of nodes of a tree and \<open>countElements\<close> the number of
  opening \<open><div\<close> tags in a text. \<open>clean\<close> and \<open>tidy\<close> are the invariants of the class
  table: no stored name contains \<open><\<close>; every stored name is \<open>figma-node-k\<close> for a \<open>k\<close>
  below the counter, no name is stored for two ids, and every entry carries the name
  stored for its node's id.
\<close>

definition register :: "RunState \<Rightarrow> FigmaNode \<times> FigmaNode option \<Rightarrow> RunState" where
  "register st item =
     (case item of (node, parent) \<Rightarrow>
        (case getClassName (fst st) node of (name, conv1) \<Rightarrow>
           (conv1, snd st @ [(name, node, parent)])))"

fun emitted :: "FigmaNode \<Rightarrow> FigmaNode option \<Rightarrow> (FigmaNode \<times> FigmaNode option) list" where
  "emitted (FigmaNode p cs) parent =
     (if node_visible p = Some False then []
      else if node_type p = ''DOCUMENT'' \<or> node_type p = ''CANVAS''
      then concat (map (\<lambda>c. emitted c None) cs)
      else if node_type p = ''TEXT'' then [(FigmaNode p cs, parent)]
      else if node_type p \<in> set recognizedKinds
      then (FigmaNode p cs, parent) # concat (map (\<lambda>c. emitted c (Some (FigmaNode p cs))) cs)
      else concat (map (\<lambda>c. emitted c parent) cs))"


declare emitted.simps [simp del]

fun countElements :: "string \<Rightarrow> nat" where
  "countElements [] = 0"
| "countElements (c # s) = (if prefix ''<div '' (c # s) then 1 else 0) + countElements s"

definition clean :: "Converter \<Rightarrow> bool" where
  "clean conv = (\<forall>i name. cssClasses conv i = Some name \<longrightarrow> CHR ''<'' \<notin> set name)"

definition tidy :: "RunState \<Rightarrow> bool" where
  "tidy st =
     ((\<forall>i name. cssClasses (fst st) i = Some name \<longrightarrow>
         (\<exists>k<classCounter (fst st). name = ''figma-node-'' @ nat_str k))
      \<and> (\<forall>i j name. cssClasses (fst st) i = Some name \<and> cssClasses (fst st) j = Some name
            \<longrightarrow> i = j)
      \<and> (\<forall>(name, n, p)\<in>set (snd st). cssClasses (fst st) (node_id (props n)) = Some name))"

section \<open>Properties of the primitives\<close>

lemma js_round_nearest: "\<bar>of_int (js_round v) - v\<bar> \<le> 1 / 2"
  unfolding js_round_def by linarith

lemma js_round_channel:
  assumes "0 \<le> c" and "c \<le> 1"
  shows "0 \<le> js_round (c * 255) \<and> js_round (c * 255) \<le> 255"
proof -
  have "0 \<le> c * 255 + 1 / 2" using assms by simp
  then have lo: "0 \<le> \<lfloor>c * 255 + 1 / 2\<rfloor>" by simp
  have "c * 255 + 1 / 2 < 256" using assms by simp
  then have "\<lfloor>c * 255 + 1 / 2\<rfloor> < 256" by (simp add: floor_less_iff)
  with lo show ?thesis unfolding js_round_def by simp
qed

subsection \<open>Number strings, substrings\<close>

lemma digit_char_is_digit: "is_digit (digit_char d)"
  by (simp add: digit_char_def is_digit_def)

lemma nat_str_ne: "nat_str n \<noteq> []"
  by (subst nat_str.simps) simp

lemma nat_str_digits: "c \<in> set (nat_str n) \<Longrightarrow> is_digit c"
proof (induction n arbitrary: c rule: nat_str.induct)
  case (1 n)
  show ?case
  proof (cases "n < 10")
    case True
    with "1.prems" show ?thesis by (subst (asm) nat_str.simps) (simp add: digit_char_is_digit)
  next
    case False
    with "1.prems" "1.IH" show ?thesis
      by (subst (asm) nat_str.simps) (auto simp: digit_char_is_digit)
  qed
qed

lemma frac_digits_digits: "c \<in> set (frac_digits k f) \<Longrightarrow> is_digit c"
  by (induction k f arbitrary: c rule: frac_digits.induct) (auto simp: digit_char_is_digit split: if_splits)

lemma pos_str_digdot: "c \<in> set (pos_str v) \<Longrightarrow> is_digdot c"
  by (auto simp: pos_str_def is_digdot_def dest: nat_str_digits frac_digits_digits split: if_splits)

lemma pos_str_ne: "pos_str v \<noteq> []"
  by (simp add: pos_str_def nat_str_ne)

lemma num_str_ne: "num_str v \<noteq> []"
  by (simp add: num_str_def pos_str_ne)

lemma num_str_chars: "c \<in> set (num_str v) \<Longrightarrow> num_char c"
  by (auto simp: num_str_def num_char_def dest: pos_str_digdot split: if_splits)

lemma num_str_nonneg: "0 \<le> v \<Longrightarrow> num_str v = pos_str v"
  by (simp add: num_str_def)

lemma num_str_neg: "v < 0 \<Longrightarrow> num_str v = CHR ''-'' # pos_str (- v)"
  by (simp add: num_str_def)

lemma str_includes_set: "str_includes s t \<Longrightarrow> set t \<subseteq> set s"
proof (induction s)
  case Nil
  then show ?case by simp
next
  case (Cons a s)
  from Cons.prems have "prefix t (a # s) \<or> str_includes s t" by simp
  then show ?case
  proof
    assume "prefix t (a # s)"
    then show ?thesis by (rule set_mono_prefix)
  next
    assume "str_includes s t"
    with Cons.IH show ?thesis by auto
  qed
qed

lemma remove_first_subset: "set (remove_first P xs) \<subseteq> set xs"
  by (induction xs) auto

lemma remove_first_keeps: "x \<in> set xs \<Longrightarrow> \<not> P x \<Longrightarrow> x \<in> set (remove_first P xs)"
  by (induction xs) auto

subsection \<open>Style lines: what each section contributes and what survives\<close>

lemma no_k_no_bg: "CHR ''k'' \<notin> set x \<Longrightarrow> \<not> str_includes x ''background-color''"
  by (auto dest: str_includes_set)

lemma num_str_no_k [simp]: "CHR ''k'' \<notin> set (num_str v)"
  by (auto dest: num_str_chars simp: num_char_def is_digdot_def is_digit_def)

lemma px_no_k [simp]: "CHR ''k'' \<notin> set (px v)"
  by (simp add: px_def)

lemma rgba_no_k [simp]: "CHR ''k'' \<notin> set (rgbaToString c q)"
  by (simp add: rgbaToString_def Let_def)

lemma textAlignH_keeps: "x \<in> set st \<Longrightarrow> x \<in> set (textAlignH ts st)"
  by (auto simp: textAlignH_def Let_def split: option.splits)

lemma textAlignV_keeps: "x \<in> set st \<Longrightarrow> x \<in> set (textAlignV ts st)"
  by (auto simp: textAlignV_def Let_def split: option.splits)

lemma textColor_keeps:
  assumes "x \<in> set st" and "\<not> str_includes x ''background-color''"
  shows "x \<in> set (textColor node st)"
proof -
  have "x \<in> set (remove_first (\<lambda>s. str_includes s ''background-color'') (st @ [l]))" for l
    using assms by (intro remove_first_keeps) simp_all
  then show ?thesis using assms(1)
    by (simp add: textColor_def split: option.splits list.splits)
qed

lemma textStyles_keeps:
  "x \<in> set st \<Longrightarrow> \<not> str_includes x ''background-color'' \<Longrightarrow> x \<in> set (textStyles node st)"
  by (auto simp: textStyles_def intro!: textColor_keeps textAlignV_keeps textAlignH_keeps
      split: option.splits)

lemma textStyles_id:
  "node_type node \<noteq> ''TEXT'' \<or> node_style node = None \<Longrightarrow> textStyles node st = st"
  by (auto simp: textStyles_def)

lemma insert_at_set: "set (insert_at i v xs) = insert v (set xs)"
proof -
  have "set (take i xs) \<union> set (drop i xs) = set xs"
    by (metis append_take_drop_id set_append)
  then show ?thesis unfolding insert_at_def by auto
qed

lemma forcePosition_keeps: "x \<in> set st \<Longrightarrow> x \<in> set (forcePosition node p st)"
  by (auto simp: forcePosition_def Let_def insert_at_set split: option.splits)

lemma layoutStyles_keeps: "x \<in> set st \<Longrightarrow> x \<in> set (layoutStyles node parent st)"
  by (auto simp: layoutStyles_def intro!: forcePosition_keeps split: option.splits)

lemma take_drop_keeps:
  assumes "x \<in> set xs" and "i < length xs" and "x \<noteq> xs ! i"
  shows "x \<in> set (take i xs) \<or> x \<in> set (drop (Suc i) xs)"
proof -
  have "xs = take i xs @ xs ! i # drop (Suc i) xs" using assms(2) by (rule id_take_nth_drop)
  then have "set xs = set (take i xs @ xs ! i # drop (Suc i) xs)" by simp
  then have "set xs = set (take i xs) \<union> {xs ! i} \<union> set (drop (Suc i) xs)"
    by (simp only: set_append list.set) auto
  with assms(1,3) show ?thesis by auto
qed

lemma index_of_Cons: "index_of v (a # xs) = (if a \<noteq> v then Suc (index_of v xs) else 0)"
  by (simp add: index_of_def)

lemma index_of_nth: "v \<in> set xs \<Longrightarrow> index_of v xs < length xs \<and> xs ! index_of v xs = v"
  by (induction xs) (auto simp: index_of_Cons)

lemma find_Some_props: "find P xs = Some x \<Longrightarrow> P x \<and> x \<in> set xs"
  by (induction xs) (auto split: if_splits)

lemma find_None_all: "find P xs = None \<longleftrightarrow> (\<forall>x\<in>set xs. \<not> P x)"
  by (induction xs) auto

lemma postProcess_id: "find match_border_line st = None \<Longrightarrow> postProcess st = st"
  by (simp add: postProcess_def split: option.splits)

lemma postProcess_no_radius:
  "find (\<lambda>s. str_includes s ''border-radius:'') st = None \<Longrightarrow> postProcess st = st"
  by (simp add: postProcess_def)

lemma postProcess_cases:
  "postProcess st = st \<or>
   (\<exists>r bl weight color.
      find (\<lambda>s. str_includes s ''border-radius:'') st = Some r \<and> search_radius_top r
      \<and> find match_border_line st = Some bl \<and> border_match bl = Some (weight, color)
      \<and> postProcess st
          = take (index_of bl st) st @ side_lines weight color @ drop (Suc (index_of bl st)) st)"
  by (auto simp: postProcess_def Let_def side_lines_def split: option.splits)

lemma postProcess_keeps:
  assumes "x \<in> set st" and "\<not> match_border_line x"
  shows "x \<in> set (postProcess st)"
  using postProcess_cases [of st]
proof
  assume "postProcess st = st"
  with assms show ?thesis by simp
next
  assume "\<exists>r bl weight color.
      find (\<lambda>s. str_includes s ''border-radius:'') st = Some r \<and> search_radius_top r
      \<and> find match_border_line st = Some bl \<and> border_match bl = Some (weight, color)
      \<and> postProcess st
          = take (index_of bl st) st @ side_lines weight color @ drop (Suc (index_of bl st)) st"
  then obtain bl weight color where
    bl: "find match_border_line st = Some bl" and
    eq: "postProcess st
          = take (index_of bl st) st @ side_lines weight color @ drop (Suc (index_of bl st)) st"
    by blast
  from bl have bl': "match_border_line bl" "bl \<in> set st" by (auto dest: find_Some_props)
  with assms(2) have "x \<noteq> bl" by auto
  moreover from bl'(2) have "index_of bl st < length st" "st ! index_of bl st = bl"
    by (simp_all add: index_of_nth)
  ultimately have "x \<in> set (take (index_of bl st) st) \<or> x \<in> set (drop (Suc (index_of bl st)) st)"
    using assms(1) by (intro take_drop_keeps) auto
  with eq show ?thesis by auto
qed

lemma postProcess_subset:
  assumes "x \<in> set (postProcess st)"
  shows "x \<in> set st \<or> (line_prop x \<in> {''border-left'', ''border-right'', ''border-top''}
                          \<and> (\<exists>b\<in>set st. match_border_line b))"
  using postProcess_cases [of st]
proof
  assume "postProcess st = st"
  with assms show ?thesis by simp
next
  assume "\<exists>r bl weight color.
      find (\<lambda>s. str_includes s ''border-radius:'') st = Some r \<and> search_radius_top r
      \<and> find match_border_line st = Some bl \<and> border_match bl = Some (weight, color)
      \<and> postProcess st
          = take (index_of bl st) st @ side_lines weight color @ drop (Suc (index_of bl st)) st"
  then obtain bl weight color where
    bl: "find match_border_line st = Some bl" and
    eq: "postProcess st
          = take (index_of bl st) st @ side_lines weight color @ drop (Suc (index_of bl st)) st"
    by blast
  from assms eq have "x \<in> set (take (index_of bl st) st) \<or> x \<in> set (side_lines weight color)
      \<or> x \<in> set (drop (Suc (index_of bl st)) st)" by auto
  then show ?thesis
  proof (elim disjE)
    assume "x \<in> set (take (index_of bl st) st)"
    then show ?thesis by (auto dest: in_set_takeD)
  next
    assume "x \<in> set (drop (Suc (index_of bl st)) st)"
    then show ?thesis by (auto dest: in_set_dropD)
  next
    assume "x \<in> set (side_lines weight color)"
    then have "line_prop x \<in> {''border-left'', ''border-right'', ''border-top''}"
      by (auto simp: side_lines_def line_prop_def)
    moreover from bl have "\<exists>b\<in>set st. match_border_line b" by (auto dest: find_Some_props)
    ultimately show ?thesis by blast
  qed
qed

lemmas line_eval = plain_def line_prop_def match_border_line_def re_spaces0_def re_lit_def
  is_space_def

lemma position_all:
  "list_all (plain [''position'', ''left'', ''top'', ''width'', ''height'', ''min-height''])
     (positionStyles node parent)"
  by (simp add: positionStyles_def Let_def line_eval split: option.split prod.split)

lemma fill_all: "list_all (plain [''background-color'', ''background'']) (fillStyles node)"
  by (simp add: fillStyles_def line_eval split: option.split list.split)

lemma stroke_all:
  "list_all (\<lambda>x. line_prop x \<in> set [''box-sizing'', ''border-left'', ''border-right'',
                 ''border-top'', ''border-bottom'', ''border'', ''box-shadow''])
     (strokeStyles node info)"
  by (simp add: strokeStyles_def borderSides_def Let_def line_prop_def
      split: option.split list.split)

lemma radius_all: "list_all (plain [''border-radius'']) (radiusStyles info)"
  by (simp add: radiusStyles_def line_eval)

lemma opacity_all: "list_all (plain [''opacity'']) (opacityStyles node)"
  by (simp add: opacityStyles_def line_eval split: option.split)

lemma effect_all: "list_all (plain [''box-shadow'']) (effectStyles node)"
  by (simp add: effectStyles_def Let_def line_eval split: option.split)

lemma clip_all: "list_all (plain [''overflow'']) (clipStyles node)"
  by (simp add: clipStyles_def line_eval)

lemma flex_all: "list_all (plain flexProps) (flexStyles node mode)"
  by (simp add: flexStyles_def flexProps_def line_eval split: option.split)

lemma textMetrics_all: "list_all (plain textProps) (textMetrics ts)"
  by (simp add: textMetrics_def textProps_def line_eval split: option.split)

lemma textAlignH_all:
  assumes "list_all R st" and "\<And>x. plain textProps x \<Longrightarrow> R x"
  shows "list_all R (textAlignH ts st)"
proof -
  have "R (''  text-align: '' @ v)" for v
    by (rule assms(2)) (simp add: textProps_def line_eval)
  moreover have "R ''  display: flex;''" "R ''  justify-content: center;''"
    by (rule assms(2), simp add: textProps_def line_eval)+
  ultimately show ?thesis using assms(1)
    by (simp add: textAlignH_def Let_def split: option.split)
qed

lemma textAlignV_all:
  assumes "list_all R st" and "\<And>x. plain textProps x \<Longrightarrow> R x"
  shows "list_all R (textAlignV ts st)"
proof -
  have "R ''  display: flex;''" "R ''  align-items: flex-start;''"
    "R ''  align-items: center;''" "R ''  align-items: flex-end;''"
    by (rule assms(2), simp add: textProps_def line_eval)+
  then show ?thesis using assms(1)
    by (simp add: textAlignV_def split: option.split)
qed

lemma remove_first_all: "list_all R xs \<Longrightarrow> list_all R (remove_first P xs)"
  by (induction xs) auto

lemma textColor_all:
  assumes "list_all R st" and "\<And>x. plain textProps x \<Longrightarrow> R x"
  shows "list_all R (textColor node st)"
proof -
  have "R (''  color: '' @ v)" for v
    by (rule assms(2)) (simp add: textProps_def line_eval)
  then show ?thesis using assms(1)
    by (simp add: textColor_def remove_first_all split: option.split list.split)
qed

lemma textStyles_all:
  assumes "list_all R st"
      and "\<And>x. node_type node = ''TEXT'' \<Longrightarrow> node_style node \<noteq> None \<Longrightarrow> plain textProps x \<Longrightarrow> R x"
  shows "list_all R (textStyles node st)"
proof (cases "node_type node = ''TEXT'' \<and> node_style node \<noteq> None")
  case False
  then show ?thesis using assms(1) by (auto simp: textStyles_def)
next
  case True
  then obtain ts where ts: "node_style node = Some ts" by auto
  have R: "plain textProps x \<Longrightarrow> R x" for x using assms(2) True by blast
  have m: "list_all R (textMetrics ts)"
    using textMetrics_all [of ts] R by (auto simp: list_all_iff)
  have "list_all R (textColor node (textAlignV ts (textAlignH ts (st @ textMetrics ts))))"
    by (intro textColor_all textAlignV_all textAlignH_all R) (simp_all add: assms(1) m)
  moreover have "R ''  white-space: pre-wrap;''" "R ''  word-wrap: break-word;''"
    by (rule R, simp add: textProps_def line_eval)+
  ultimately show ?thesis using True ts by (simp add: textStyles_def)
qed

lemma forcePosition_all:
  assumes "list_all R st" and "R ''  position: absolute;''"
      and "\<And>x. absoluteBoundingBox node \<noteq> None \<Longrightarrow> plain [''left'', ''top''] x \<Longrightarrow> R x"
  shows "list_all R (forcePosition node p st)"
proof -
  have "R (''  left: '' @ v)" "R (''  top: '' @ v)"
    if "absoluteBoundingBox node \<noteq> None" for v
    by (rule assms(3) [OF that], simp add: line_eval)+
  then show ?thesis using assms(1,2)
    by (auto simp: forcePosition_def Let_def list_all_iff insert_at_set split: option.split)
qed

lemma layoutStyles_all:
  assumes "list_all R st"
      and "\<And>x. truthy_str (layoutMode node) \<Longrightarrow> plain flexProps x \<Longrightarrow> R x"
      and "truthy_str (layoutMode node) \<Longrightarrow> parent \<noteq> None \<Longrightarrow> R ''  position: absolute;''"
      and "\<And>x. truthy_str (layoutMode node) \<Longrightarrow> absoluteBoundingBox node \<noteq> None
              \<Longrightarrow> plain [''left'', ''top''] x \<Longrightarrow> R x"
  shows "list_all R (layoutStyles node parent st)"
proof (cases "truthy_str (layoutMode node)")
  case False
  then show ?thesis using assms(1) by (simp add: layoutStyles_def)
next
  case True
  then obtain mode where mode: "layoutMode node = Some mode"
    by (auto simp: truthy_str_def split: option.splits)
  have f: "list_all R (st @ flexStyles node mode)"
    using assms(1) flex_all [of node mode] assms(2) [OF True] by (auto simp: list_all_iff)
  show ?thesis
  proof (cases parent)
    case None
    then show ?thesis using True mode f by (simp add: layoutStyles_def)
  next
    case (Some p)
    have "list_all R (forcePosition node p (st @ flexStyles node mode))"
      using f assms(3) [OF True] assms(4) [OF True] Some by (intro forcePosition_all) auto
    then show ?thesis using True mode Some by (simp add: layoutStyles_def)
  qed
qed

lemma plain_mono: "plain names x \<Longrightarrow> set names \<subseteq> set names' \<Longrightarrow> plain names' x"
  by (auto simp: plain_def)

lemma list_all_mono: "list_all P xs \<Longrightarrow> (\<And>x. P x \<Longrightarrow> Q x) \<Longrightarrow> list_all Q xs"
  by (auto simp: list_all_iff)

lemma layoutStyles_all_positioned:
  assumes "list_all R st"
      and "\<And>x. truthy_str (layoutMode node) \<Longrightarrow> plain flexProps x \<Longrightarrow> R x"
      and "list_ex (\<lambda>s. str_includes s ''position:'') st"
  shows "list_all R (layoutStyles node parent st)"
proof (cases "truthy_str (layoutMode node)")
  case False
  then show ?thesis using assms(1) by (simp add: layoutStyles_def)
next
  case True
  then obtain mode where mode: "layoutMode node = Some mode"
    by (auto simp: truthy_str_def split: option.splits)
  have f: "list_all R (st @ flexStyles node mode)"
    using assms(1) flex_all [of node mode] assms(2) [OF True] by (auto simp: list_all_iff)
  have "forcePosition node p (st @ flexStyles node mode) = st @ flexStyles node mode" for p
    using assms(3) by (simp add: forcePosition_def)
  then show ?thesis using True mode f by (simp add: layoutStyles_def split: option.split)
qed

lemma collect_all:
  assumes "list_all R (positionStyles node parent)"
      and "list_all R (fillStyles node)"
      and "list_all R (strokeStyles node (borderRadiusInfo node))"
      and "list_all R (radiusStyles (borderRadiusInfo node))"
      and "list_all R (opacityStyles node)"
      and "\<And>x. node_type node = ''TEXT'' \<Longrightarrow> node_style node \<noteq> None \<Longrightarrow> plain textProps x \<Longrightarrow> R x"
      and "\<And>x. truthy_str (layoutMode node) \<Longrightarrow> plain flexProps x \<Longrightarrow> R x"
      and "truthy_str (layoutMode node) \<Longrightarrow> parent \<noteq> None
             \<Longrightarrow> absoluteBoundingBox node = None \<Longrightarrow> R ''  position: absolute;''"
      and "list_all R (effectStyles node)"
      and "list_all R (clipStyles node)"
  shows "list_all R (collectStyles node parent)"
proof -
  let ?base = "positionStyles node parent @ fillStyles node
               @ strokeStyles node (borderRadiusInfo node)
               @ radiusStyles (borderRadiusInfo node) @ opacityStyles node"
  have base: "list_all R ?base" using assms(1-5) by simp
  have tx: "list_all R (textStyles node ?base)"
    using base assms(6) by (rule textStyles_all)
  have "list_all R (layoutStyles node parent (textStyles node ?base))"
  proof (cases "absoluteBoundingBox node")
    case None
    show ?thesis
      using tx assms(7)
    proof (rule layoutStyles_all)
      show "R ''  position: absolute;''"
        if "truthy_str (layoutMode node)" "parent \<noteq> None"
        using assms(8) that None by blast
    next
      fix x
      assume "absoluteBoundingBox node \<noteq> None"
      with None show "R x" by simp
    qed
  next
    case (Some box)
    have "''  position: relative;'' \<in> set (positionStyles node parent)
          \<or> ''  position: absolute;'' \<in> set (positionStyles node parent)"
      using Some by (simp add: positionStyles_def Let_def split: option.split prod.split)
    then obtain l where l: "l \<in> set ?base" "l = ''  position: relative;'' \<or> l = ''  position: absolute;''"
      by auto
    have inc: "str_includes l ''position:''" using l(2) by auto
    have nk: "\<not> str_includes l ''background-color''"
      using l(2) by (auto intro!: no_k_no_bg)
    have "l \<in> set (textStyles node ?base)" using l(1) nk by (rule textStyles_keeps)
    with inc have "list_ex (\<lambda>s. str_includes s ''position:'') (textStyles node ?base)"
      by (auto simp: list_ex_iff)
    with tx assms(7) show ?thesis by (rule layoutStyles_all_positioned)
  qed
  then show ?thesis using assms(9,10) by (simp add: collectStyles_def Let_def)
qed

lemma styleLines_all:
  assumes "list_all R (collectStyles node parent)"
      and "\<And>x. line_prop x \<in> {''border-left'', ''border-right'', ''border-top''} \<Longrightarrow>
                \<exists>b\<in>set (collectStyles node parent). match_border_line b \<Longrightarrow> R x"
  shows "list_all R (styleLines node parent)"
  using assms unfolding styleLines_def list_all_iff
  by (blast dest: postProcess_subset)

lemma collect_keeps:
  assumes "x \<in> set (positionStyles node parent @ fillStyles node
                     @ strokeStyles node (borderRadiusInfo node)
                     @ radiusStyles (borderRadiusInfo node) @ opacityStyles node)"
      and "\<not> str_includes x ''background-color''"
  shows "x \<in> set (collectStyles node parent)"
proof -
  have "x \<in> set (layoutStyles node parent (textStyles node
           (positionStyles node parent @ fillStyles node
            @ strokeStyles node (borderRadiusInfo node)
            @ radiusStyles (borderRadiusInfo node) @ opacityStyles node)))"
    using assms by (intro layoutStyles_keeps textStyles_keeps)
  then show ?thesis by (simp add: collectStyles_def Let_def)
qed

lemma styleLines_keeps:
  "x \<in> set (collectStyles node parent) \<Longrightarrow> \<not> match_border_line x
     \<Longrightarrow> x \<in> set (styleLines node parent)"
  unfolding styleLines_def by (rule postProcess_keeps)

lemma plain_R:
  "list_all (plain names) xs \<Longrightarrow> (\<And>x. line_prop x \<in> set names \<Longrightarrow> R x) \<Longrightarrow> list_all R xs"
  by (auto simp: list_all_iff plain_def)




lemma nat_str_zero: "nat_str n = ''0'' \<Longrightarrow> n = 0"
proof (cases "n < 10")
  case True
  assume "nat_str n = ''0''"
  with True have "digit_char n = CHR ''0''" by (subst (asm) nat_str.simps) simp
  then show ?thesis by (simp add: digit_char_def split: if_splits)
next
  case False
  assume a: "nat_str n = ''0''"
  from False have "nat_str n = nat_str (n div 10) @ [digit_char (n mod 10)]"
    by (subst nat_str.simps) simp
  with a have "nat_str (n div 10) = []" by simp
  with nat_str_ne show ?thesis by blast
qed

lemma num_str_0 [simp]: "num_str 0 = ''0''"
  by (simp add: num_str_def pos_str_def nat_str.simps digit_char_def)

lemma num_str_eq_0: "num_str v = ''0'' \<Longrightarrow> v = 0"
proof -
  assume a: "num_str v = ''0''"
  have nn: "\<not> v < 0" using a by (auto simp: num_str_def)
  with a have p: "pos_str v = ''0''" by (simp add: num_str_def)
  have f: "frac v = 0"
  proof (rule ccontr)
    assume "frac v \<noteq> 0"
    with p have "nat_str (nat \<lfloor>v\<rfloor>) @ CHR ''.'' # frac_digits 20 (frac v) = ''0''"
      by (simp add: pos_str_def)
    then show False using nat_str_ne [of "nat \<lfloor>v\<rfloor>"]
      by (cases "nat_str (nat \<lfloor>v\<rfloor>)") auto
  qed
  with p have "nat_str (nat \<lfloor>v\<rfloor>) = ''0''" by (simp add: pos_str_def)
  then have "nat \<lfloor>v\<rfloor> = 0" by (rule nat_str_zero)
  with nn have "\<lfloor>v\<rfloor> = 0" by (simp add: floor_le_zero le_floor_iff antisym)
  with f show ?thesis by (simp add: frac_def)
qed

lemma num_str_zero_px:
  assumes "prefix ''0p'' (num_str v @ CHR ''p'' # r)"
  shows "v = 0"
proof (cases "num_str v")
  case Nil
  with num_str_ne show ?thesis by blast
next
  case (Cons c cs)
  show ?thesis
  proof (cases cs)
    case Nil
    with Cons assms have "num_str v = ''0''" by simp
    then show ?thesis by (rule num_str_eq_0)
  next
    case (Cons d ds)
    with \<open>num_str v = c # cs\<close> assms have "d = CHR ''p''" by simp
    moreover have "d \<in> set (num_str v)" using Cons \<open>num_str v = c # cs\<close> by simp
    ultimately have "num_char (CHR ''p'')" by (auto dest: num_str_chars)
    then show ?thesis by (simp add: num_char_def is_digdot_def is_digit_def)
  qed
qed

lemma dropWhile_digdot:
  "\<forall>c\<in>set ds. is_digdot c \<Longrightarrow> dropWhile is_digdot (ds @ CHR ''p'' # r) = CHR ''p'' # r"
  by (induction ds) (auto simp: is_digdot_def is_digit_def)

lemma re_corner_neg:
  assumes "v < 0"
  shows "re_corner False (num_str v @ CHR ''p'' # CHR ''x'' # r) = Some r"
proof -
  have "\<forall>c\<in>set (pos_str (- v)). is_digdot c" by (auto dest: pos_str_digdot)
  then have dw: "dropWhile is_digdot (pos_str (- v) @ CHR ''p'' # CHR ''x'' # r)
                   = CHR ''p'' # CHR ''x'' # r"
    by (rule dropWhile_digdot)
  have "re_corner False (CHR ''-'' # (pos_str (- v) @ CHR ''p'' # CHR ''x'' # r))
          = re_lit ''px'' (dropWhile is_digdot (pos_str (- v) @ CHR ''p'' # CHR ''x'' # r))"
    unfolding re_corner_def by (simp only: list.case) simp
  also have "\<dots> = Some r" unfolding dw by (simp add: re_lit_def)
  finally show ?thesis using assms by (simp add: num_str_neg)
qed

lemma top_rounded_info:
  assumes "rectangleCornerRadii node = Some [a, b, c, d]"
      and "round2 a \<noteq> 0" and "round2 b \<noteq> 0" and "round2 c = 0" and "round2 d = 0"
  shows "borderRadiusInfo node
           = \<lparr>hasTopRadius = True, hasBottomRadius = False,
              radiiString = num_str (round2 a) @ ''px '' @ num_str (round2 b) @ ''px 0px 0px''\<rparr>"
proof -
  let ?S = "num_str (round2 a) @ ''px '' @ num_str (round2 b) @ ''px 0px 0px''"
  have from_node: "radiusFromNode node
      = \<lparr>hasTopRadius = (round2 a > 0 \<or> round2 b > 0), hasBottomRadius = False,
         radiiString = ?S\<rparr>"
    using assms by (simp add: radiusFromNode_def)
  have ne: "?S \<noteq> []" using num_str_ne [of "round2 a"] by simp
  have nb: "\<not> match_bottom_only ?S"
  proof
    assume "match_bottom_only ?S"
    then have "prefix ''0px 0px '' ?S"
      by (auto simp: match_bottom_only_def re_lit_def split: if_splits)
    then have "prefix ''0p'' ?S" by (auto simp: prefix_def)
    then have "round2 a = 0" using num_str_zero_px [of "round2 a"] by simp
    with assms(2) show False by contradiction
  qed
  have top: "match_top_only ?S" if "\<not> (round2 a > 0 \<or> round2 b > 0)"
  proof -
    from that assms(2,3) have neg: "round2 a < 0" "round2 b < 0" by auto
    show ?thesis
      using re_corner_neg [OF neg(1)] re_corner_neg [OF neg(2)]
      by (simp add: match_top_only_def re_lit_def)
  qed
  show ?thesis
    unfolding borderRadiusInfo_def Let_def from_node using ne nb top by auto
qed

lemma frac_digits_ne: "f \<noteq> 0 \<Longrightarrow> frac_digits (Suc k) f \<noteq> []"
  by simp

lemma takeWhile_digits:
  "\<forall>c\<in>set ds. is_digit c \<Longrightarrow> \<not> is_digit y \<Longrightarrow> takeWhile is_digit (ds @ y # r) = ds"
  by (induction ds) auto

lemma dropWhile_digits:
  "\<forall>c\<in>set ds. is_digit c \<Longrightarrow> \<not> is_digit y \<Longrightarrow> dropWhile is_digit (ds @ y # r) = y # r"
  by (induction ds) auto

lemma re_weight_pos_str: "re_weight (pos_str v @ CHR ''p'' # CHR ''x'' # r) = Some (pos_str v @ ''px'', r)"
proof -
  define N where "N = nat_str (nat \<lfloor>v\<rfloor>)"
  have Nd: "\<forall>c\<in>set N. is_digit c" and Nne: "N \<noteq> []"
    by (auto simp: N_def nat_str_ne dest: nat_str_digits)
  have np: "\<not> is_digit (CHR ''p'')" "\<not> is_digit (CHR ''.'')" by (simp_all add: is_digit_def)
  show ?thesis
  proof (cases "frac v = 0")
    case True
    then have p: "pos_str v = N" by (simp add: pos_str_def N_def)
    have t: "takeWhile is_digit (N @ CHR ''p'' # CHR ''x'' # r) = N"
      using Nd np(1) by (rule takeWhile_digits)
    have d: "dropWhile is_digit (N @ CHR ''p'' # CHR ''x'' # r) = CHR ''p'' # CHR ''x'' # r"
      using Nd np(1) by (rule dropWhile_digits)
    show ?thesis unfolding p re_weight_def Let_def t d using Nne by simp
  next
    case False
    define D where "D = frac_digits 20 (frac v)"
    have Dd: "\<forall>c\<in>set D. is_digit c" by (auto simp: D_def dest: frac_digits_digits)
    have Dne: "D \<noteq> []" using False by (simp add: D_def eval_nat_numeral)
    from False have p: "pos_str v = N @ CHR ''.'' # D" by (simp add: pos_str_def N_def D_def)
    have t: "takeWhile is_digit (N @ CHR ''.'' # D @ CHR ''p'' # CHR ''x'' # r) = N"
      using Nd np(2) by (rule takeWhile_digits)
    have d: "dropWhile is_digit (N @ CHR ''.'' # D @ CHR ''p'' # CHR ''x'' # r)
               = CHR ''.'' # D @ CHR ''p'' # CHR ''x'' # r"
      using Nd np(2) by (rule dropWhile_digits)
    have t2: "takeWhile is_digit (D @ CHR ''p'' # CHR ''x'' # r) = D"
      using Dd np(1) by (rule takeWhile_digits)
    have d2: "dropWhile is_digit (D @ CHR ''p'' # CHR ''x'' # r) = CHR ''p'' # CHR ''x'' # r"
      using Dd np(1) by (rule dropWhile_digits)
    have "re_weight (N @ CHR ''.'' # D @ CHR ''p'' # CHR ''x'' # r)
            = Some (N @ ''.'' @ D @ ''px'', r)"
      unfolding re_weight_def Let_def t d using Nne Dne
      by (simp only: list.case if_False if_True refl t2 d2) simp
    then show ?thesis unfolding p by simp
  qed
qed

lemma rgba_chars: "c \<in> set (rgbaToString col q) \<Longrightarrow> color_char c"
  by (auto simp: rgbaToString_def Let_def color_char_def dest: num_str_chars split: if_splits)

lemma rgba_hd: "\<exists>r. rgbaToString col q = CHR ''r'' # r"
  by (simp add: rgbaToString_def Let_def)

lemma re_dot_plus_semi_color:
  assumes "C \<noteq> []" and "\<forall>c\<in>set C. c \<noteq> CHR '';'' \<and> \<not> is_line_terminator c"
  shows "re_dot_plus_semi (C @ '';'') = Some C"
proof -
  have run: "takeWhile (\<lambda>c. \<not> is_line_terminator c) (C @ '';'') = C @ '';''"
    using assms(2) by (auto simp: takeWhile_eq_all_conv is_line_terminator_def)
  have up: "[1 ..< length (C @ '';'')] = [1 ..< length C] @ [length C]"
    using assms(1) by (cases C) simp_all
  have f1: "filter (\<lambda>j. (C @ '';'') ! j = CHR '';'') [1 ..< length C] = []"
    using assms(2) by (auto simp: filter_empty_conv nth_append)
  have f2: "filter (\<lambda>j. (C @ '';'') ! j = CHR '';'') [length C] = [length C]"
    by simp
  have idxs: "filter (\<lambda>j. (C @ '';'') ! j = CHR '';'') [1 ..< length (C @ '';'')] = [length C]"
    unfolding up filter_append f1 f2 by simp
  show ?thesis
    unfolding re_dot_plus_semi_def Let_def run idxs by simp
qed

lemma border_match_at_line:
  assumes "0 \<le> v"
  shows "border_match_at (''border: '' @ num_str v @ ''px solid '' @ rgbaToString col q @ '';'')
           = Some (num_str v @ ''px'', rgbaToString col q)"
proof -
  define C where "C = rgbaToString col q"
  obtain r where hd: "C = CHR ''r'' # r" using rgba_hd [of col q] by (auto simp: C_def)
  have Cok: "\<forall>c\<in>set C. c \<noteq> CHR '';'' \<and> \<not> is_line_terminator c"
    using rgba_chars [of _ col q]
    by (auto simp: C_def color_char_def num_char_def is_digdot_def is_digit_def
        is_line_terminator_def)
  have Cne: "C \<noteq> []" using hd by simp
  have W: "num_str v = pos_str v" using assms by (rule num_str_nonneg)
  obtain w ws where w: "pos_str v = w # ws" using pos_str_ne [of v] by (cases "pos_str v") auto
  have "is_digdot w" using w pos_str_digdot [of w v] by simp
  then have wns: "\<not> is_space w" by (auto simp: is_digdot_def is_digit_def is_space_def)
  have s0: "re_spaces0 ('' '' @ pos_str v @ ''px solid '' @ C @ '';'')
              = Some (pos_str v @ ''px solid '' @ C @ '';'')"
    using wns by (simp add: re_spaces0_def w is_space_def)
  have rw: "re_weight (pos_str v @ ''px solid '' @ C @ '';'')
              = Some (pos_str v @ ''px'', '' solid '' @ C @ '';'')"
    using re_weight_pos_str [of v "'' solid '' @ C @ '';''"] by simp
  have s1: "re_spaces1 ('' solid '' @ C @ '';'') = Some (''solid '' @ C @ '';'')"
    by (simp add: re_spaces1_def is_space_def)
  have l1: "re_lit ''solid'' (''solid '' @ C @ '';'') = Some ('' '' @ C @ '';'')"
    by (simp add: re_lit_def)
  have tw: "length (takeWhile is_space ('' '' @ C @ '';'')) = Suc 0"
    by (simp add: hd is_space_def)
  have sc: "re_spaces_then_color (Suc 0) ('' '' @ C @ '';'') = Some C"
    using re_dot_plus_semi_color [OF Cne Cok] by simp
  have l0: "re_lit ''border:'' (''border: '' @ pos_str v @ ''px solid '' @ C @ '';'')
              = Some ('' '' @ pos_str v @ ''px solid '' @ C @ '';'')"
    by (simp add: re_lit_def)
  show ?thesis
    unfolding border_match_at_def W C_def [symmetric]
    by (simp only: l0 s0 rw s1 l1 tw sc Option.bind.simps prod.case)
qed

lemma border_match_line:
  assumes "0 \<le> v"
  shows "border_match (''  border: '' @ num_str v @ ''px solid '' @ rgbaToString col q @ '';'')
           = Some (num_str v @ ''px'', rgbaToString col q)"
proof -
  have n: "border_match_at (CHR '' '' # s) = None" for s
    by (simp add: border_match_at_def re_lit_def)
  have "border_match (CHR '' '' # CHR '' '' # s) = border_match s" if "s \<noteq> []" for s
    using that n by (cases s) simp_all
  then have "border_match (''  border: '' @ num_str v @ ''px solid '' @ rgbaToString col q @ '';'')
      = border_match (''border: '' @ num_str v @ ''px solid '' @ rgbaToString col q @ '';'')"
    by simp
  also have "\<dots> = Some (num_str v @ ''px'', rgbaToString col q)"
    using border_match_at_line [OF assms, of col q] by simp
  finally show ?thesis .
qed

lemma match_border_line_line:
  "match_border_line (''  border: '' @ num_str v @ r) \<longleftrightarrow> 0 \<le> v"
proof (cases "0 \<le> v")
  case True
  obtain w ws where w: "pos_str v = w # ws" using pos_str_ne [of v] by (cases "pos_str v") auto
  have "is_digdot w" using w pos_str_digdot [of w v] by simp
  moreover have "w \<noteq> CHR ''.''"
    using w nat_str_ne [of "nat \<lfloor>v\<rfloor>"] nat_str_digits [of w "nat \<lfloor>v\<rfloor>"]
    by (cases "nat_str (nat \<lfloor>v\<rfloor>)") (auto simp: pos_str_def is_digit_def split: if_splits)
  ultimately have "is_digit w" by (simp add: is_digdot_def)
  then have "\<not> is_space w" by (auto simp: is_digit_def is_space_def)
  with \<open>is_digit w\<close> True show ?thesis
    by (simp add: match_border_line_def re_spaces0_def re_lit_def num_str_nonneg w is_space_def)
next
  case False
  then show ?thesis
    by (simp add: match_border_line_def re_spaces0_def re_lit_def num_str_neg is_space_def
        is_digit_def)
qed

lemma gen_invisible:
  "node_visible p = Some False \<Longrightarrow> generateHtmlWithStyles (FigmaNode p cs) d par st = ([], st)"
  by simp

lemma gen_root:
  assumes "node_visible p \<noteq> Some False" and "node_type p = ''DOCUMENT'' \<or> node_type p = ''CANVAS''"
  shows "generateHtmlWithStyles (FigmaNode p cs) d par st
           = (case childrenHtml cs d None st of (hs, st1) \<Rightarrow> (join nl hs, st1))"
  using assms by (cases cs) (auto split: prod.split)

lemma gen_text:
  assumes "node_visible p \<noteq> Some False" and "node_type p = ''TEXT''"
  shows \<open>generateHtmlWithStyles (FigmaNode p cs) d par st
           = (case getClassName (fst st) (FigmaNode p cs) of (name, conv1) \<Rightarrow>
                (indent d @ ''<div class="'' @ name @ ''">''
                   @ escapeHtml (case characters p of None \<Rightarrow> [] | Some t \<Rightarrow> t) @ ''</div>'',
                 (conv1, snd st @ [(name, FigmaNode p cs, par)])))\<close>
  using assms by (simp add: Let_def split: prod.split)

lemma gen_element:
  assumes "node_visible p \<noteq> Some False" and "node_type p \<in> set recognizedKinds"
  shows \<open>generateHtmlWithStyles (FigmaNode p cs) d par st
           = (case getClassName (fst st) (FigmaNode p cs) of (name, conv1) \<Rightarrow>
                (case childrenHtml cs (d + 1) (Some (FigmaNode p cs))
                        (conv1, snd st @ [(name, FigmaNode p cs, par)]) of (hs, st2) \<Rightarrow>
                   (indent d @ ''<div class="'' @ name @ ''">''
                      @ (if cs \<noteq> [] then nl @ join nl hs @ nl @ indent d else [])
                      @ ''</div>'', st2)))\<close>
proof -
  have k: "node_type p \<noteq> ''DOCUMENT''" "node_type p \<noteq> ''CANVAS''" "node_type p \<noteq> ''TEXT''"
    using assms(2) by (auto simp: recognizedKinds_def)
  show ?thesis
    using assms k by (cases cs) (simp_all add: Let_def split: prod.split)
qed

lemma gen_passthrough:
  assumes "node_visible p \<noteq> Some False"
      and "node_type p \<noteq> ''DOCUMENT''" and "node_type p \<noteq> ''CANVAS''"
      and "node_type p \<noteq> ''TEXT''" and "node_type p \<notin> set recognizedKinds"
  shows "generateHtmlWithStyles (FigmaNode p cs) d par st
           = (case childrenHtml cs d par st of (hs, st1) \<Rightarrow> (join nl hs, st1))"
  using assms by (cases cs) (auto split: prod.split)

lemmas gen_simps_del = generateHtmlWithStyles.simps

lemma childrenHtml_append:
  "childrenHtml (xs @ ys) d par st
     = (case childrenHtml xs d par st of (hs1, st1) \<Rightarrow>
          (case childrenHtml ys d par st1 of (hs2, st2) \<Rightarrow> (hs1 @ hs2, st2)))"
  by (induction xs arbitrary: st) (simp_all add: Let_def split: prod.split)

lemma children_state:
  assumes "\<And>c d st. c \<in> set cs \<Longrightarrow>
             snd (generateHtmlWithStyles c d par st) = foldl register st (emitted c par)"
  shows "snd (childrenHtml cs d par st)
           = foldl register st (concat (map (\<lambda>c. emitted c par) cs))"
  using assms
proof (induction cs arbitrary: st)
  case Nil
  then show ?case by simp
next
  case (Cons c cs)
  have c: "snd (generateHtmlWithStyles c d par st) = foldl register st (emitted c par)"
    by (rule Cons.prems) simp
  have rest: "snd (childrenHtml cs d par st') = foldl register st' (concat (map (\<lambda>c. emitted c par) cs))"
    for st'
    by (rule Cons.IH) (simp add: Cons.prems)
  obtain h st1 where g: "generateHtmlWithStyles c d par st = (h, st1)"
    by (cases "generateHtmlWithStyles c d par st")
  obtain hs st2 where gs: "childrenHtml cs d par st1 = (hs, st2)"
    by (cases "childrenHtml cs d par st1")
  show ?case
    using c rest [of st1] g gs by simp
qed

lemma gen_state:
  "snd (generateHtmlWithStyles node d par st) = foldl register st (emitted node par)"
proof (induction node arbitrary: d par st)
  case (FigmaNode p cs)
  have ch: "snd (childrenHtml cs d' par' st')
              = foldl register st' (concat (map (\<lambda>c. emitted c par') cs))" for d' par' st'
    by (rule children_state) (rule FigmaNode.IH)
  consider (hidden) "node_visible p = Some False"
    | (rootlike) "node_visible p \<noteq> Some False" "node_type p = ''DOCUMENT'' \<or> node_type p = ''CANVAS''"
    | (textual) "node_visible p \<noteq> Some False" "node_type p = ''TEXT''"
    | (element) "node_visible p \<noteq> Some False" "node_type p \<in> set recognizedKinds"
    | (passthrough) "node_visible p \<noteq> Some False" "node_type p \<noteq> ''DOCUMENT''"
        "node_type p \<noteq> ''CANVAS''" "node_type p \<noteq> ''TEXT''" "node_type p \<notin> set recognizedKinds"
    by blast
  then show ?case
  proof cases
    case hidden
    then show ?thesis by (simp add: emitted.simps)
  next
    case rootlike
    then show ?thesis
      using ch [of d None st]
      by (auto simp: gen_root emitted.simps split: prod.split simp del: gen_simps_del)
  next
    case textual
    then show ?thesis
      by (simp add: gen_text emitted.simps register_def split: prod.split del: gen_simps_del)
  next
    case element
    then have k: "node_type p \<noteq> ''DOCUMENT''" "node_type p \<noteq> ''CANVAS''" "node_type p \<noteq> ''TEXT''"
      by (auto simp: recognizedKinds_def)
    obtain name conv1 where g: "getClassName (fst st) (FigmaNode p cs) = (name, conv1)"
      by (cases "getClassName (fst st) (FigmaNode p cs)")
    have r1: "register st (FigmaNode p cs, par) = (conv1, snd st @ [(name, FigmaNode p cs, par)])"
      using g by (simp add: register_def)
    obtain hs st2 where gs: "childrenHtml cs (d + 1) (Some (FigmaNode p cs))
                               (conv1, snd st @ [(name, FigmaNode p cs, par)]) = (hs, st2)"
      by (cases "childrenHtml cs (d + 1) (Some (FigmaNode p cs))
                   (conv1, snd st @ [(name, FigmaNode p cs, par)])")
    show ?thesis
      using element k g gs
        ch [of "d + 1" "Some (FigmaNode p cs)" "(conv1, snd st @ [(name, FigmaNode p cs, par)])"]
      by (simp add: gen_element emitted.simps r1 del: gen_simps_del)
  next
    case passthrough
    then show ?thesis
      using ch [of d par st]
      by (auto simp: gen_passthrough emitted.simps split: prod.split simp del: gen_simps_del)
  qed
qed


lemma register_entries: "length (snd (foldl register st items)) = length (snd st) + length items"
  by (induction items arbitrary: st) (simp_all add: register_def split: prod.split)



lemma ce_skip: "CHR ''<'' \<notin> set a \<Longrightarrow> countElements (a @ b) = countElements b"
  by (induction a) auto

lemma ce_open: \<open>countElements (''<div class="'' @ r) = Suc (countElements r)\<close>
  by simp

lemma ce_close: "countElements (''</div>'' @ r) = countElements r"
  by simp

lemma escapeHtml_clean: "CHR ''<'' \<notin> set (escapeHtml t)"
  by (induction t) (auto simp: escapeHtml_def escapeChar_def)

lemma indent_clean: "CHR ''<'' \<notin> set (indent d)"
  by (induction d) (auto simp: indent_def)

lemma nl_clean: "CHR ''<'' \<notin> set nl"
  by (simp add: nl_def)

lemma getClassName_clean:
  assumes "clean conv" and "getClassName conv node = (name, conv1)"
  shows "clean conv1 \<and> CHR ''<'' \<notin> set name"
proof (cases "cssClasses conv (node_id (props node))")
  case None
  define fresh where "fresh = ''figma-node-'' @ nat_str (classCounter conv)"
  have fresh: "CHR ''<'' \<notin> set fresh"
    by (auto simp: fresh_def dest: nat_str_digits simp: is_digit_def)
  from None assms(2) have name: "name = fresh"
    and conv1: "cssClasses conv1 = (cssClasses conv)(node_id (props node) \<mapsto> fresh)"
    by (auto simp: getClassName_def Let_def fresh_def)
  have "clean conv1"
    unfolding clean_def conv1 using assms(1) fresh by (auto simp: clean_def split: if_splits)
  with name fresh show ?thesis by simp
next
  case (Some a)
  with assms show ?thesis by (auto simp: getClassName_def clean_def)
qed

lemma register_clean: "clean (fst st) \<Longrightarrow> clean (fst (register st item))"
  by (cases item; cases "getClassName (fst st) (fst item)")
     (auto simp: register_def dest: getClassName_clean)

lemma foldl_register_clean: "clean (fst st) \<Longrightarrow> clean (fst (foldl register st items))"
  by (induction items arbitrary: st) (simp_all add: register_clean)

lemma gen_clean: "clean (fst st) \<Longrightarrow> clean (fst (snd (generateHtmlWithStyles node d par st)))"
  by (simp add: gen_state foldl_register_clean)

lemma join_Cons: "join sep (h # hs) = (if hs = [] then h else h @ sep @ join sep hs)"
  by (cases hs) simp_all

lemma childrenHtml_length: "length (fst (childrenHtml cs d par st)) = length cs"
  by (induction cs arbitrary: st) (simp_all add: Let_def case_prod_beta)

lemma children_count:
  assumes "\<And>c d st rest. c \<in> set cs \<Longrightarrow> clean (fst st) \<Longrightarrow>
             countElements (fst (generateHtmlWithStyles c d par st) @ rest)
               = length (emitted c par) + countElements rest"
      and "clean (fst st)"
  shows "countElements (join nl (fst (childrenHtml cs d par st)) @ rest)
           = length (concat (map (\<lambda>c. emitted c par) cs)) + countElements rest"
  using assms
proof (induction cs arbitrary: st)
  case Nil
  then show ?case by simp
next
  case (Cons c cs)
  obtain h st1 where g: "generateHtmlWithStyles c d par st = (h, st1)"
    by (cases "generateHtmlWithStyles c d par st")
  obtain hs st2 where gs: "childrenHtml cs d par st1 = (hs, st2)"
    by (cases "childrenHtml cs d par st1")
  have c1: "clean (fst st1)" using gen_clean [OF Cons.prems(2), of c d par] g by simp
  have first: "countElements (h @ r) = length (emitted c par) + countElements r" for r
  proof -
    have "countElements (fst (generateHtmlWithStyles c d par st) @ r)
            = length (emitted c par) + countElements r"
      by (rule Cons.prems(1)) (simp_all add: Cons.prems(2))
    with g show ?thesis by simp
  qed
  have others: "countElements (join nl hs @ rest)
                  = length (concat (map (\<lambda>c. emitted c par) cs)) + countElements rest"
  proof -
    have "countElements (join nl (fst (childrenHtml cs d par st1)) @ rest)
            = length (concat (map (\<lambda>c. emitted c par) cs)) + countElements rest"
      by (rule Cons.IH) (simp_all add: Cons.prems(1) c1)
    with gs show ?thesis by simp
  qed
  have "countElements (join nl (h # hs) @ rest)
          = length (emitted c par) + (length (concat (map (\<lambda>c. emitted c par) cs))
              + countElements rest)"
  proof (cases "hs = []")
    case True
    with others first [of rest] show ?thesis by simp
  next
    case False
    then have "join nl (h # hs) @ rest = h @ (nl @ (join nl hs @ rest))"
      by (simp add: join_Cons)
    then show ?thesis
      using first [of "nl @ (join nl hs @ rest)"] others
      by (simp add: ce_skip [OF nl_clean])
  qed
  then show ?case using g gs by simp
qed

lemma gen_count:
  "clean (fst st) \<Longrightarrow>
     countElements (fst (generateHtmlWithStyles node d par st) @ rest)
       = length (emitted node par) + countElements rest"
proof (induction node arbitrary: d par st rest)
  case (FigmaNode p cs)
  have ch: "countElements (join nl (fst (childrenHtml cs d' par' st')) @ r)
              = length (concat (map (\<lambda>c. emitted c par') cs)) + countElements r"
    if "clean (fst st')" for d' par' st' r
    using FigmaNode.IH that by (intro children_count) auto
  consider (hidden) "node_visible p = Some False"
    | (rootlike) "node_visible p \<noteq> Some False" "node_type p = ''DOCUMENT'' \<or> node_type p = ''CANVAS''"
    | (textual) "node_visible p \<noteq> Some False" "node_type p = ''TEXT''"
    | (element) "node_visible p \<noteq> Some False" "node_type p \<in> set recognizedKinds"
    | (passthrough) "node_visible p \<noteq> Some False" "node_type p \<noteq> ''DOCUMENT''"
        "node_type p \<noteq> ''CANVAS''" "node_type p \<noteq> ''TEXT''" "node_type p \<notin> set recognizedKinds"
    by blast
  then show ?case
  proof cases
    case hidden
    then show ?thesis by (simp add: emitted.simps)
  next
    case rootlike
    then show ?thesis
      using ch [OF FigmaNode.prems, of d None rest]
      by (auto simp: gen_root emitted.simps split: prod.split simp del: gen_simps_del)
  next
    case textual
    obtain name conv1 where g: "getClassName (fst st) (FigmaNode p cs) = (name, conv1)"
      by (cases "getClassName (fst st) (FigmaNode p cs)")
    have n: "CHR ''<'' \<notin> set name" using getClassName_clean [OF FigmaNode.prems g] by simp
    have \<open>countElements (indent d @ (''<div class="'' @ (name @ (''">''
              @ (escapeHtml (case characters p of None \<Rightarrow> [] | Some t \<Rightarrow> t) @ (''</div>'' @ rest))))))
            = Suc (countElements rest)\<close>
      unfolding ce_skip [OF indent_clean] ce_open ce_skip [OF n]
      by (simp add: ce_skip [OF escapeHtml_clean])
    then show ?thesis
      using textual g by (simp add: gen_text emitted.simps del: gen_simps_del)
  next
    case element
    then have k: "node_type p \<noteq> ''DOCUMENT''" "node_type p \<noteq> ''CANVAS''" "node_type p \<noteq> ''TEXT''"
      by (auto simp: recognizedKinds_def)
    obtain name conv1 where g: "getClassName (fst st) (FigmaNode p cs) = (name, conv1)"
      by (cases "getClassName (fst st) (FigmaNode p cs)")
    have n: "CHR ''<'' \<notin> set name" and c1: "clean conv1"
      using getClassName_clean [OF FigmaNode.prems g] by simp_all
    let ?st1 = "(conv1, snd st @ [(name, FigmaNode p cs, par)])"
    obtain hs st2 where gs: "childrenHtml cs (d + 1) (Some (FigmaNode p cs)) ?st1 = (hs, st2)"
      by (cases "childrenHtml cs (d + 1) (Some (FigmaNode p cs)) ?st1")
    have inner: "countElements (join nl hs @ r)
        = length (concat (map (\<lambda>c. emitted c (Some (FigmaNode p cs))) cs)) + countElements r" for r
      using ch [of ?st1 "d + 1" "Some (FigmaNode p cs)" r] c1 gs by simp
    have body: "countElements ((if cs \<noteq> [] then nl @ join nl hs @ nl @ indent d else [])
                                 @ (''</div>'' @ rest))
        = length (concat (map (\<lambda>c. emitted c (Some (FigmaNode p cs))) cs)) + countElements rest"
    proof (cases "cs = []")
      case True
      then show ?thesis by simp
    next
      case False
      have "countElements (nl @ (join nl hs @ (nl @ (indent d @ (''</div>'' @ rest)))))
              = length (concat (map (\<lambda>c. emitted c (Some (FigmaNode p cs))) cs))
                + countElements rest"
        unfolding ce_skip [OF nl_clean] inner ce_skip [OF indent_clean] by simp
      with False show ?thesis by simp
    qed
    have \<open>countElements (indent d @ (''<div class="'' @ (name @ (''">''
              @ ((if cs \<noteq> [] then nl @ join nl hs @ nl @ indent d else []) @ (''</div>'' @ rest))))))
            = Suc (length (concat (map (\<lambda>c. emitted c (Some (FigmaNode p cs))) cs))
                   + countElements rest)\<close>
      unfolding ce_skip [OF indent_clean] ce_open ce_skip [OF n]
      using body by simp
    then show ?thesis
      using element k g gs by (simp add: gen_element emitted.simps del: gen_simps_del)
  next
    case passthrough
    then show ?thesis
      using ch [OF FigmaNode.prems, of d par rest]
      by (auto simp: gen_passthrough emitted.simps split: prod.split simp del: gen_simps_del)
  qed
qed

lemma css_concat: "foldl (\<lambda>css entry. css @ cssRule entry) acc es = acc @ concat (map cssRule es)"
  by (induction es arbitrary: acc) simp_all

lemma join_empty: "\<forall>x\<in>set xs. x \<noteq> [] \<Longrightarrow> join sep xs = [] \<longleftrightarrow> xs = []"
  by (cases xs) (auto simp: join_Cons)

lemma lines_nonempty: "list_all (\<lambda>x. x \<noteq> []) (styleLines node parent)"
proof -
  let ?R = "\<lambda>x::string. x \<noteq> []"
  have "list_all ?R (collectStyles node parent)"
  proof (rule collect_all)
    show "list_all ?R (positionStyles node parent)"
      by (rule plain_R [OF position_all]) (auto simp: line_prop_def)
    show "list_all ?R (fillStyles node)"
      by (rule plain_R [OF fill_all]) (auto simp: line_prop_def)
    show "list_all ?R (strokeStyles node (borderRadiusInfo node))"
      by (rule list_all_mono [OF stroke_all]) (auto simp: line_prop_def)
    show "list_all ?R (radiusStyles (borderRadiusInfo node))"
      by (rule plain_R [OF radius_all]) (auto simp: line_prop_def)
    show "list_all ?R (opacityStyles node)"
      by (rule plain_R [OF opacity_all]) (auto simp: line_prop_def)
    show "list_all ?R (effectStyles node)"
      by (rule plain_R [OF effect_all]) (auto simp: line_prop_def)
    show "list_all ?R (clipStyles node)"
      by (rule plain_R [OF clip_all]) (auto simp: line_prop_def)
    show "?R x" if "plain textProps x" for x
      using that by (auto simp: plain_def textProps_def line_prop_def)
    show "?R x" if "plain flexProps x" for x
      using that by (auto simp: plain_def flexProps_def line_prop_def)
    show "?R ''  position: absolute;''" by simp
  qed
  then show ?thesis
    by (rule styleLines_all) (auto simp: line_prop_def)
qed

lemma generateNodeStyles_empty:
  "generateNodeStyles n par = [] \<longleftrightarrow> styleLines (props n) (map_option props par) = []"
  unfolding generateNodeStyles_def
  using lines_nonempty [of "props n" "map_option props par"]
  by (intro join_empty) (simp add: list_all_iff)

lemma digit_char_inj: "a < 10 \<Longrightarrow> b < 10 \<Longrightarrow> digit_char a = digit_char b \<Longrightarrow> a = b"
  by (simp add: digit_char_def split: if_splits) arith

lemma nat_str_inj: "nat_str a = nat_str b \<Longrightarrow> a = b"
proof (induction a arbitrary: b rule: nat_str.induct)
  case (1 n)
  show ?case
  proof (cases "n < 10")
    case small: True
    then have n: "nat_str n = [digit_char n]" by (subst nat_str.simps) simp
    show ?thesis
    proof (cases "b < 10")
      case True
      then have "nat_str b = [digit_char b]" by (subst nat_str.simps) simp
      with n "1.prems" small True show ?thesis by (auto dest: digit_char_inj)
    next
      case False
      then have "nat_str b = nat_str (b div 10) @ [digit_char (b mod 10)]"
        by (subst nat_str.simps) simp
      with n "1.prems" have "nat_str (b div 10) = []" by simp
      with nat_str_ne show ?thesis by blast
    qed
  next
    case big: False
    then have n: "nat_str n = nat_str (n div 10) @ [digit_char (n mod 10)]"
      by (subst nat_str.simps) simp
    show ?thesis
    proof (cases "b < 10")
      case True
      then have "nat_str b = [digit_char b]" by (subst nat_str.simps) simp
      with n "1.prems" have "nat_str (n div 10) = []" by simp
      with nat_str_ne show ?thesis by blast
    next
      case False
      then have "nat_str b = nat_str (b div 10) @ [digit_char (b mod 10)]"
        by (subst nat_str.simps) simp
      with n "1.prems" have eq: "nat_str (n div 10) = nat_str (b div 10)"
        "digit_char (n mod 10) = digit_char (b mod 10)" by simp_all
      from eq(1) big have "n div 10 = b div 10" by (intro "1.IH") simp_all
      moreover from eq(2) have "n mod 10 = b mod 10" by (intro digit_char_inj) simp_all
      ultimately show ?thesis by (metis div_mult_mod_eq)
    qed
  qed
qed

lemma register_tidy:
  assumes "tidy st"
  shows "tidy (register st item)"
proof -
  obtain node parent where item: "item = (node, parent)" by (cases item)
  let ?m = "cssClasses (fst st)"
  let ?i = "node_id (props node)"
  from assms have names: "\<And>i name. ?m i = Some name \<Longrightarrow>
        \<exists>k<classCounter (fst st). name = ''figma-node-'' @ nat_str k"
    and inj: "\<And>i j name. ?m i = Some name \<Longrightarrow> ?m j = Some name \<Longrightarrow> i = j"
    and ents: "\<And>name n p. (name, n, p) \<in> set (snd st) \<Longrightarrow> ?m (node_id (props n)) = Some name"
    unfolding tidy_def by blast+
  show ?thesis
  proof (cases "?m ?i")
    case (Some name)
    then have r: "register st item = (fst st, snd st @ [(name, node, parent)])"
      by (simp add: register_def item getClassName_def)
    show ?thesis
      unfolding r tidy_def using names inj ents Some by auto
  next
    case None
    define fresh where "fresh = ''figma-node-'' @ nat_str (classCounter (fst st))"
    define conv1 where "conv1 = (fst st)\<lparr>cssClasses := ?m(?i \<mapsto> fresh),
                                         classCounter := classCounter (fst st) + 1\<rparr>"
    have r: "register st item = (conv1, snd st @ [(fresh, node, parent)])"
      using None by (simp add: register_def item getClassName_def Let_def fresh_def conv1_def)
    have m1: "cssClasses conv1 = ?m(?i \<mapsto> fresh)" and c1: "classCounter conv1 = Suc (classCounter (fst st))"
      by (simp_all add: conv1_def)
    have old_fresh: "name \<noteq> fresh" if "?m i = Some name" for i name
    proof
      assume "name = fresh"
      moreover from names [OF that] obtain k where "k < classCounter (fst st)"
        "name = ''figma-node-'' @ nat_str k" by blast
      ultimately have "nat_str k = nat_str (classCounter (fst st))" by (simp add: fresh_def)
      then have "k = classCounter (fst st)" by (rule nat_str_inj)
      with \<open>k < classCounter (fst st)\<close> show False by simp
    qed
    have a: "\<exists>k<classCounter conv1. name = ''figma-node-'' @ nat_str k"
      if "cssClasses conv1 i = Some name" for i name
    proof (cases "i = ?i")
      case True
      with that have "name = fresh" by (simp add: m1)
      then show ?thesis unfolding c1 fresh_def by blast
    next
      case False
      with that have "?m i = Some name" by (simp add: m1)
      from names [OF this] show ?thesis unfolding c1 using less_Suc_eq by blast
    qed
    have b: "i = j" if "cssClasses conv1 i = Some name" "cssClasses conv1 j = Some name" for i j name
    proof (cases "i = ?i")
      case True
      with that(1) have nf: "name = fresh" by (simp add: m1)
      show ?thesis
      proof (cases "j = ?i")
        case True
        with \<open>i = ?i\<close> show ?thesis by simp
      next
        case False
        with that(2) have "?m j = Some name" by (simp add: m1)
        from old_fresh [OF this] nf show ?thesis by contradiction
      qed
    next
      case False
      with that(1) have mi: "?m i = Some name" by (simp add: m1)
      show ?thesis
      proof (cases "j = ?i")
        case True
        with that(2) have "name = fresh" by (simp add: m1)
        with old_fresh [OF mi] show ?thesis by contradiction
      next
        case False
        with that(2) have "?m j = Some name" by (simp add: m1)
        with mi show ?thesis by (rule inj)
      qed
    qed
    have c: "cssClasses conv1 (node_id (props n)) = Some name"
      if "(name, n, p) \<in> set (snd st @ [(fresh, node, parent)])" for name n p
    proof (cases "(name, n, p) \<in> set (snd st)")
      case True
      from ents [OF this] have old: "?m (node_id (props n)) = Some name" .
      with None have "node_id (props n) \<noteq> ?i" by auto
      with old show ?thesis by (simp add: m1)
    next
      case False
      with that have "name = fresh" "n = node" by simp_all
      then show ?thesis by (simp add: m1)
    qed
    show ?thesis
      unfolding r tidy_def fst_conv snd_conv using a b c by blast
  qed
qed

lemma foldl_register_tidy: "tidy st \<Longrightarrow> tidy (foldl register st items)"
  by (induction items arbitrary: st) (simp_all add: register_tidy)

lemma tidy_unique:
  assumes "tidy st" and "(name1, n1, p1) \<in> set (snd st)" and "(name2, n2, p2) \<in> set (snd st)"
  shows "name1 = name2 \<longleftrightarrow> node_id (props n1) = node_id (props n2)"
proof -
  from assms have 1: "cssClasses (fst st) (node_id (props n1)) = Some name1"
    and 2: "cssClasses (fst st) (node_id (props n2)) = Some name2"
    unfolding tidy_def by blast+
  from assms(1) have inj: "\<And>i j name. cssClasses (fst st) i = Some name \<Longrightarrow>
      cssClasses (fst st) j = Some name \<Longrightarrow> i = j"
    unfolding tidy_def by blast
  show ?thesis
  proof
    assume "name1 = name2"
    with 1 2 show "node_id (props n1) = node_id (props n2)" by (auto intro: inj)
  next
    assume "node_id (props n1) = node_id (props n2)"
    with 1 2 show "name1 = name2" by simp
  qed
qed

lemma register_nodes:
  "map snd (snd (foldl register st items))
     = map snd (snd st) @ items"
proof (induction items arbitrary: st)
  case Nil
  then show ?case by simp
next
  case (Cons item items)
  have "map snd (snd (register st item))
          = map snd (snd st) @ [item]"
    by (cases item; cases "getClassName (fst st) (fst item)") (simp add: register_def)
  with Cons [of "register st item"] show ?case by simp
qed

lemma absent_props:
  assumes "\<And>x. x \<in> set (positionStyles node parent) \<Longrightarrow> line_prop x \<notin> S"
      and "\<And>x. x \<in> set (fillStyles node) \<Longrightarrow> line_prop x \<notin> S"
      and "node_type node = ''TEXT'' \<Longrightarrow> node_style node \<noteq> None \<Longrightarrow> set textProps \<inter> S = {}"
      and "S \<inter> set [''box-sizing'', ''border-left'', ''border-right'', ''border-top'',
                       ''border-bottom'', ''border'', ''box-shadow'', ''border-radius'',
                       ''opacity'', ''overflow'', ''position'', ''display'', ''flex-direction'',
                       ''gap'', ''padding'', ''justify-content'', ''align-items''] = {}"
  shows "\<forall>x\<in>set (styleLines node parent). line_prop x \<notin> S"
proof -
  let ?R = "\<lambda>x. line_prop x \<notin> S"
  have "list_all ?R (collectStyles node parent)"
  proof (rule collect_all)
    show "list_all ?R (positionStyles node parent)" using assms(1) by (simp add: list_all_iff)
    show "list_all ?R (fillStyles node)" using assms(2) by (simp add: list_all_iff)
    show "list_all ?R (strokeStyles node (borderRadiusInfo node))"
      by (rule list_all_mono [OF stroke_all]) (use assms(4) in auto)
    show "list_all ?R (radiusStyles (borderRadiusInfo node))"
      by (rule plain_R [OF radius_all]) (use assms(4) in auto)
    show "list_all ?R (opacityStyles node)"
      by (rule plain_R [OF opacity_all]) (use assms(4) in auto)
    show "list_all ?R (effectStyles node)"
      by (rule plain_R [OF effect_all]) (use assms(4) in auto)
    show "list_all ?R (clipStyles node)"
      by (rule plain_R [OF clip_all]) (use assms(4) in auto)
    show "?R x" if "node_type node = ''TEXT''" "node_style node \<noteq> None" "plain textProps x" for x
      using assms(3) that by (auto simp: plain_def)
    show "?R x" if "plain flexProps x" for x
      using that assms(4) by (auto simp: plain_def flexProps_def)
    show "?R ''  position: absolute;''"
      using assms(4) by (auto simp: line_prop_def)
  qed
  then have "list_all ?R (styleLines node parent)"
    by (rule styleLines_all) (use assms(4) in auto)
  then show ?thesis by (simp add: list_all_iff)
qed

lemma css_append:
  "generateCssFromNodes (es1 @ e # es2)
     = generateCssFromNodes es1 @ cssRule e @ concat (map cssRule es2)"
  by (simp add: generateCssFromNodes_def css_concat)

section \<open>Claims\<close>

text \<open>
  C1, amended. The number of style entries collected by the traversal equals the number
  of \<open><div\<close> elements in the markup. The stylesheet is the two fixed rules followed by
  the rule of each entry in order, and an entry's rule is empty when its node resolves
  to no style line (\<open>if (styles)\<close>, line 179); otherwise it is the block keyed by the
  entry's class name. So the stylesheet has at most as many rules as the markup has
  elements, one for each entry with a style line.
\<close>

theorem style_rules_per_element:
  "let run = generateHtmlWithStyles node 0 None
               (conv\<lparr>cssClasses := Map.empty, classCounter := 0\<rparr>, []);
       entries = snd (snd run)
   in fst (convertWithStyles conv node) = (fst run, cssHeader @ concat (map cssRule entries))
    \<and> countElements (fst run) = length entries
    \<and> length (filter (\<lambda>e. cssRule e \<noteq> []) entries) \<le> countElements (fst run)
    \<and> cssRule (name, n, par)
        = (if styleLines (props n) (map_option props par) = [] then []
           else ''.'' @ name @ '' {'' @ nl @ generateNodeStyles n par @ ''}'' @ nl @ nl)"
proof -
  let ?init = "(conv\<lparr>cssClasses := Map.empty, classCounter := 0\<rparr>, [])"
  let ?run = "generateHtmlWithStyles node 0 None ?init"
  have c0: "clean (fst ?init)" by (simp add: clean_def)
  have "countElements (fst ?run @ []) = length (emitted node None) + countElements []"
    using c0 by (rule gen_count)
  moreover have "length (snd (snd ?run)) = length (emitted node None)"
    by (simp add: gen_state register_entries)
  ultimately have count: "countElements (fst ?run) = length (snd (snd ?run))" by simp
  have conv: "fst (convertWithStyles conv node)
                = (fst ?run, cssHeader @ concat (map cssRule (snd (snd ?run))))"
    by (simp add: convertWithStyles_def Let_def generateCssFromNodes_def css_concat
        split: prod.split)
  have rules: "length (filter (\<lambda>e. cssRule e \<noteq> []) (snd (snd ?run))) \<le> countElements (fst ?run)"
    unfolding count by (rule length_filter_le)
  have rule: "cssRule (name, n, par)
        = (if styleLines (props n) (map_option props par) = [] then []
           else ''.'' @ name @ '' {'' @ nl @ generateNodeStyles n par @ ''}'' @ nl @ nl)"
    using generateNodeStyles_empty [of n par] by (simp add: cssRule_def Let_def)
  show ?thesis
    unfolding Let_def using conv count rules rule by (intro conjI)
qed

text \<open>
  C1 as stated fails for a visible node without any style field: a bare rectangle is
  emitted as one element and the stylesheet has no rule for its class.
\<close>

theorem style_rules_per_element_counterexample:
  \<open>fst (convertWithStyles newConverter (FigmaNode (bareProps ''1:1'' ''RECTANGLE'') []))
     = (''<div class="figma-node-0"></div>'', cssHeader)\<close>
  by code_simp



text \<open>
  C3, amended. The corner radii are rounded to 0.01 before they are classified, so the
  pattern is read on the rounded values. For a node whose first stroke is visible, has a
  colour and a nonzero weight and is aligned INSIDE (the default when \<open>strokeAlign\<close> is
  absent), with four corner radii whose rounded top-left and top-right values are
  nonzero and whose rounded bottom values are zero: the style lines contain
  \<open>box-sizing: border-box\<close>, \<open>border-left\<close>, \<open>border-right\<close>, \<open>border-top\<close> and the four-value
  \<open>border-radius\<close>; no line sets \<open>border-bottom\<close> or the uniform \<open>border\<close>.
\<close>

theorem inside_stroke_top_rounded:
  assumes "strokes node = Some (stroke # rest)"
      and "strokeWeight node = Some sw" and "sw \<noteq> 0"
      and "paint_visible stroke \<noteq> Some False"
      and "paint_color stroke = Some col"
      and "or_str (strokeAlign node) ''INSIDE'' = ''INSIDE''"
      and "rectangleCornerRadii node = Some [a, b, c, d]"
      and "round2 a \<noteq> 0" and "round2 b \<noteq> 0" and "round2 c = 0" and "round2 d = 0"
  shows "let weight = px sw;
             color = rgbaToString col (paint_opacity stroke);
             lines = styleLines node parent
         in ''  box-sizing: border-box;'' \<in> set lines
          \<and> ''  border-left: '' @ weight @ '' solid '' @ color @ '';'' \<in> set lines
          \<and> ''  border-right: '' @ weight @ '' solid '' @ color @ '';'' \<in> set lines
          \<and> ''  border-top: '' @ weight @ '' solid '' @ color @ '';'' \<in> set lines
          \<and> ''  border-radius: '' @ num_str (round2 a) @ ''px '' @ num_str (round2 b)
                @ ''px 0px 0px;'' \<in> set lines
          \<and> (\<forall>x\<in>set lines. line_prop x \<noteq> ''border-bottom'' \<and> line_prop x \<noteq> ''border'')"
proof -
  define weight where "weight = px sw"
  define color where "color = rgbaToString col (paint_opacity stroke)"
  define emitted where "emitted =
     [''  box-sizing: border-box;'',
      ''  border-left: '' @ weight @ '' solid '' @ color @ '';'',
      ''  border-right: '' @ weight @ '' solid '' @ color @ '';'',
      ''  border-top: '' @ weight @ '' solid '' @ color @ '';'']"
  define radius where "radius =
     ''  border-radius: '' @ num_str (round2 a) @ ''px '' @ num_str (round2 b) @ ''px 0px 0px;''"
  have info: "borderRadiusInfo node
           = \<lparr>hasTopRadius = True, hasBottomRadius = False,
              radiiString = num_str (round2 a) @ ''px '' @ num_str (round2 b) @ ''px 0px 0px''\<rparr>"
    using assms(7-11) by (rule top_rounded_info)
  have stroke: "strokeStyles node (borderRadiusInfo node) = emitted"
    unfolding info using assms(1-6)
    by (simp add: strokeStyles_def borderSides_def emitted_def weight_def color_def Let_def)
  have rad: "radiusStyles (borderRadiusInfo node) = [radius]"
    unfolding info using num_str_ne [of "round2 a"] by (simp add: radiusStyles_def radius_def)
  have nobg: "\<not> str_includes x ''background-color''" if "x \<in> set (emitted @ [radius])" for x
    using that
    by (auto simp: emitted_def radius_def weight_def color_def intro!: no_k_no_bg)
  have noborder: "\<not> match_border_line x" if "x \<in> set (emitted @ [radius])" for x
    using that by (auto simp: emitted_def radius_def line_eval)
  have present: "x \<in> set (styleLines node parent)" if "x \<in> set (emitted @ [radius])" for x
  proof -
    have "x \<in> set (collectStyles node parent)"
      using that stroke rad nobg by (intro collect_keeps) auto
    then show ?thesis using noborder [OF that] by (rule styleLines_keeps)
  qed
  let ?R = "\<lambda>x. line_prop x \<noteq> ''border-bottom'' \<and> line_prop x \<noteq> ''border''"
  have "list_all ?R (collectStyles node parent)"
  proof (rule collect_all)
    show "list_all ?R (positionStyles node parent)"
      by (rule plain_R [OF position_all]) auto
    show "list_all ?R (fillStyles node)"
      by (rule plain_R [OF fill_all]) auto
    show "list_all ?R (strokeStyles node (borderRadiusInfo node))"
      unfolding stroke by (simp add: emitted_def line_prop_def)
    show "list_all ?R (radiusStyles (borderRadiusInfo node))"
      by (rule plain_R [OF radius_all]) auto
    show "list_all ?R (opacityStyles node)"
      by (rule plain_R [OF opacity_all]) auto
    show "list_all ?R (effectStyles node)"
      by (rule plain_R [OF effect_all]) auto
    show "list_all ?R (clipStyles node)"
      by (rule plain_R [OF clip_all]) auto
    show "?R x" if "plain textProps x" for x
      using that by (auto simp: plain_def textProps_def)
    show "?R x" if "plain flexProps x" for x
      using that by (auto simp: plain_def flexProps_def)
    show "?R ''  position: absolute;''" by (simp add: line_prop_def)
  qed
  then have "list_all ?R (styleLines node parent)"
    by (rule styleLines_all) auto
  then have absent: "\<forall>x\<in>set (styleLines node parent). ?R x" by (simp add: list_all_iff)
  have "set (emitted @ [radius]) \<subseteq> set (styleLines node parent)"
    using present by blast
  then show ?thesis
    unfolding Let_def weight_def [symmetric] color_def [symmetric]
    using absent by (simp add: emitted_def radius_def)
qed

theorem inside_stroke_top_rounded_witness:
  "set [''  box-sizing: border-box;'', ''  border-left: 1px solid rgb(0, 0, 0);'',
        ''  border-right: 1px solid rgb(0, 0, 0);'', ''  border-top: 1px solid rgb(0, 0, 0);'',
        ''  border-radius: 8px 8px 0px 0px;'']
     \<subseteq> set (styleLines (strokedRect None [8, 8, 0, 0]) None)
   \<and> ''  border-bottom: 1px solid rgb(0, 0, 0);''
       \<notin> set (styleLines (strokedRect None [8, 8, 0, 0]) None)"
proof -
  let ?n = "strokedRect None [8, 8, 0, 0]"
  have h: "strokes ?n = Some (solidPaint black # [])" "strokeWeight ?n = Some 1"
    "(1::real) \<noteq> 0" "paint_visible (solidPaint black) \<noteq> Some False"
    "paint_color (solidPaint black) = Some black"
    "or_str (strokeAlign ?n) ''INSIDE'' = ''INSIDE''"
    "rectangleCornerRadii ?n = Some [8, 8, 0, 0]"
    by (simp_all add: strokedRect_def solidPaint_def bareProps_def or_str_def)
  have r: "round2 8 \<noteq> 0" "round2 0 = 0" by (simp_all add: round2_def js_round_def)
  have n: "num_str (round2 8) = ''8''" "px 1 = ''1px''"
    by code_simp+
  have c: "rgbaToString black (paint_opacity (solidPaint black)) = ''rgb(0, 0, 0)''"
    by code_simp
  have p: "line_prop ''  border-bottom: 1px solid rgb(0, 0, 0);'' = ''border-bottom''"
    by (simp add: line_prop_def)
  show ?thesis
    using inside_stroke_top_rounded [OF h r(1) r(1) r(2) r(2), of None] p
    by (auto simp: Let_def n c)
qed

text \<open>
  C3 as stated fails for radii that are nonzero but round to zero: with radii
  [0.004, 0.004, 0, 0] and an INSIDE stroke the style is a uniform border on all four
  sides and no \<open>border-radius\<close> line.
\<close>

theorem inside_stroke_top_rounded_counterexample:
  "rectangleCornerRadii (strokedRect (Some ''INSIDE'') [4 / 1000, 4 / 1000, 0, 0])
     = Some [4 / 1000, 4 / 1000, 0, 0]
   \<and> styleLines (strokedRect (Some ''INSIDE'') [4 / 1000, 4 / 1000, 0, 0]) None
     = [''  box-sizing: border-box;'', ''  border: 1px solid rgb(0, 0, 0);'']"
  by code_simp

text \<open>
  C4, amended. For a node whose first stroke is visible, has a colour and a nonzero
  weight and is aligned CENTER, the stroke section pushes exactly one line, the uniform
  \<open>border\<close>; among the collected lines it is the only one that sets \<open>border\<close>, a border
  side or \<open>box-sizing\<close>, and no emitted line sets \<open>box-sizing\<close>. Post-processing
  (lines 503-528) then decides by the first collected line that contains
  \<open>border-radius:\<close>: unless that line shows the top-rounded pattern (or when the rounded
  weight is negative) the emitted lines are the collected ones; when it does, the
  uniform border line is replaced, in place, by \<open>border-left\<close>, \<open>border-right\<close> and
  \<open>border-top\<close> of the same weight and colour, so the bottom side is suppressed.
\<close>

theorem center_stroke_border:
  assumes "strokes node = Some (stroke # rest)"
      and "strokeWeight node = Some sw" and "sw \<noteq> 0"
      and "paint_visible stroke \<noteq> Some False"
      and "paint_color stroke = Some col"
      and "strokeAlign node = Some ''CENTER''"
  shows "let weight = px sw;
             color = rgbaToString col (paint_opacity stroke);
             border = ''  border: '' @ weight @ '' solid '' @ color @ '';'';
             collected = collectStyles node parent;
             lines = styleLines node parent;
             top_pattern = (case find (\<lambda>s. str_includes s ''border-radius:'') collected of
                              None \<Rightarrow> False | Some r \<Rightarrow> search_radius_top r);
             i = index_of border collected
         in strokeStyles node (borderRadiusInfo node) = [border]
          \<and> border \<in> set collected
          \<and> (\<forall>x\<in>set collected.
                line_prop x \<in> {''border'', ''border-left'', ''border-right'', ''border-top'',
                                ''border-bottom'', ''box-sizing''} \<longrightarrow> x = border)
          \<and> (\<forall>x\<in>set lines. line_prop x \<noteq> ''box-sizing'')
          \<and> (\<not> top_pattern \<or> round2 sw < 0 \<longrightarrow> lines = collected)
          \<and> (top_pattern \<and> 0 \<le> round2 sw \<longrightarrow>
                lines = take i collected
                        @ [''  border-left: '' @ weight @ '' solid '' @ color @ '';'',
                           ''  border-right: '' @ weight @ '' solid '' @ color @ '';'',
                           ''  border-top: '' @ weight @ '' solid '' @ color @ '';'']
                        @ drop (Suc i) collected)"
proof -
  define weight where "weight = px sw"
  define color where "color = rgbaToString col (paint_opacity stroke)"
  define border where "border = ''  border: '' @ weight @ '' solid '' @ color @ '';''"
  define collected where "collected = collectStyles node parent"
  define top_pattern where "top_pattern =
     (case find (\<lambda>s. str_includes s ''border-radius:'') collected of
        None \<Rightarrow> False | Some r \<Rightarrow> search_radius_top r)"
  have border_eq: "border = ''  border: '' @ num_str (round2 sw) @ ''px solid '' @ color @ '';''"
    by (simp add: border_def weight_def px_def)
  have stroke: "strokeStyles node (borderRadiusInfo node) = [border]"
    using assms
    by (simp add: strokeStyles_def or_str_def border_def weight_def color_def Let_def)
  have nobg: "\<not> str_includes border ''background-color''"
    by (auto simp: border_def weight_def color_def intro!: no_k_no_bg)
  have present: "border \<in> set collected"
    unfolding collected_def using stroke nobg by (intro collect_keeps) auto
  have bprop: "line_prop border = ''border''" by (simp add: border_def line_prop_def)
  let ?R = "\<lambda>x. (line_prop x \<in> {''border'', ''border-left'', ''border-right'', ''border-top'',
                                 ''border-bottom'', ''box-sizing''} \<or> match_border_line x)
                 \<longrightarrow> x = border"
  have "list_all ?R (collectStyles node parent)"
  proof (rule collect_all)
    show "list_all ?R (positionStyles node parent)"
      by (rule list_all_mono [OF position_all]) (auto simp: plain_def)
    show "list_all ?R (fillStyles node)"
      by (rule list_all_mono [OF fill_all]) (auto simp: plain_def)
    show "list_all ?R (strokeStyles node (borderRadiusInfo node))"
      unfolding stroke by simp
    show "list_all ?R (radiusStyles (borderRadiusInfo node))"
      by (rule list_all_mono [OF radius_all]) (auto simp: plain_def)
    show "list_all ?R (opacityStyles node)"
      by (rule list_all_mono [OF opacity_all]) (auto simp: plain_def)
    show "list_all ?R (effectStyles node)"
      by (rule list_all_mono [OF effect_all]) (auto simp: plain_def)
    show "list_all ?R (clipStyles node)"
      by (rule list_all_mono [OF clip_all]) (auto simp: plain_def)
    show "?R x" if "plain textProps x" for x
      using that by (auto simp: plain_def textProps_def)
    show "?R x" if "plain flexProps x" for x
      using that by (auto simp: plain_def flexProps_def)
    show "?R ''  position: absolute;''" by (simp add: line_eval)
  qed
  then have only: "\<forall>x\<in>set collected. ?R x" by (simp add: list_all_iff collected_def)
  have nosizing: "\<forall>x\<in>set (styleLines node parent). line_prop x \<noteq> ''box-sizing''"
  proof -
    have "line_prop x \<noteq> ''box-sizing''" if "x \<in> set collected" for x
    proof
      assume a: "line_prop x = ''box-sizing''"
      then have "line_prop x \<in> {''border'', ''border-left'', ''border-right'', ''border-top'',
                                  ''border-bottom'', ''box-sizing''}" by simp
      with only that have "x = border" by blast
      with bprop a show False by simp
    qed
    then have "list_all (\<lambda>x. line_prop x \<noteq> ''box-sizing'') (collectStyles node parent)"
      unfolding list_all_iff collected_def by blast
    then have "list_all (\<lambda>x. line_prop x \<noteq> ''box-sizing'') (styleLines node parent)"
      by (rule styleLines_all) auto
    then show ?thesis by (simp add: list_all_iff)
  qed
  have mb: "match_border_line border \<longleftrightarrow> 0 \<le> round2 sw"
    unfolding border_eq using match_border_line_line [of "round2 sw"] by simp
  have keep: "styleLines node parent = collected" if "\<not> top_pattern \<or> round2 sw < 0"
  proof -
    from that show ?thesis
    proof
      assume ntp: "\<not> top_pattern"
      from postProcess_cases [of collected] consider
          "postProcess collected = collected"
        | r where "find (\<lambda>s. str_includes s ''border-radius:'') collected = Some r"
            "search_radius_top r"
        by blast
      then have "postProcess collected = collected"
      proof cases
        case 1
        then show ?thesis .
      next
        case 2
        then have top_pattern by (simp add: top_pattern_def)
        with ntp show ?thesis by contradiction
      qed
      then show ?thesis by (simp add: styleLines_def collected_def)
    next
      assume "round2 sw < 0"
      with mb have "\<not> match_border_line border" by simp
      with only have "\<forall>x\<in>set collected. \<not> match_border_line x" by blast
      then have "find match_border_line collected = None" by (simp add: find_None_all)
      then show ?thesis by (simp add: styleLines_def collected_def postProcess_id)
    qed
  qed
  have split: "styleLines node parent
      = take (index_of border collected) collected
        @ [''  border-left: '' @ weight @ '' solid '' @ color @ '';'',
           ''  border-right: '' @ weight @ '' solid '' @ color @ '';'',
           ''  border-top: '' @ weight @ '' solid '' @ color @ '';'']
        @ drop (Suc (index_of border collected)) collected"
    if tp: "top_pattern" and nn: "0 \<le> round2 sw"
  proof -
    from tp obtain r where r: "find (\<lambda>s. str_includes s ''border-radius:'') collected = Some r"
      "search_radius_top r"
      by (auto simp: top_pattern_def split: option.splits)
    from nn mb present have "find match_border_line collected \<noteq> None"
      by (auto simp: find_None_all)
    then obtain bl where bl: "find match_border_line collected = Some bl" by auto
    then have "match_border_line bl" "bl \<in> set collected" by (auto dest: find_Some_props)
    with only have "bl = border" by blast
    with bl have fb: "find match_border_line collected = Some border" by simp
    have bm: "border_match border = Some (weight, color)"
      unfolding border_eq color_def using border_match_line [OF nn, of col "paint_opacity stroke"]
      by (simp add: weight_def px_def)
    show ?thesis
      unfolding styleLines_def collected_def [symmetric] postProcess_def
      by (simp add: r fb bm Let_def)
  qed
  show ?thesis
    unfolding Let_def weight_def [symmetric] color_def [symmetric] border_def [symmetric]
      collected_def [symmetric] top_pattern_def [symmetric]
  proof (intro conjI)
    show "strokeStyles node (borderRadiusInfo node) = [border]" by (rule stroke)
    show "border \<in> set collected" by (rule present)
    show "\<forall>x\<in>set collected.
            line_prop x \<in> {''border'', ''border-left'', ''border-right'', ''border-top'',
                            ''border-bottom'', ''box-sizing''} \<longrightarrow> x = border"
      using only by blast
    show "\<forall>x\<in>set (styleLines node parent). line_prop x \<noteq> ''box-sizing''"
      by (rule nosizing)
    show "\<not> top_pattern \<or> round2 sw < 0 \<longrightarrow> styleLines node parent = collected"
      using keep by blast
    show "top_pattern \<and> 0 \<le> round2 sw \<longrightarrow>
            styleLines node parent
              = take (index_of border collected) collected
                @ [''  border-left: '' @ weight @ '' solid '' @ color @ '';'',
                   ''  border-right: '' @ weight @ '' solid '' @ color @ '';'',
                   ''  border-top: '' @ weight @ '' solid '' @ color @ '';'']
                @ drop (Suc (index_of border collected)) collected"
      using split by blast
  qed
qed

theorem center_stroke_border_witness:
  "styleLines (strokedRect (Some ''CENTER'') [4, 4, 4, 4]) None
     = collectStyles (strokedRect (Some ''CENTER'') [4, 4, 4, 4]) None
   \<and> ''  border: 1px solid rgb(0, 0, 0);''
       \<in> set (collectStyles (strokedRect (Some ''CENTER'') [4, 4, 4, 4]) None)
   \<and> styleLines (strokedRect (Some ''CENTER'') [8, 8, 0, 0]) None
     = take (index_of ''  border: 1px solid rgb(0, 0, 0);''
               (collectStyles (strokedRect (Some ''CENTER'') [8, 8, 0, 0]) None))
         (collectStyles (strokedRect (Some ''CENTER'') [8, 8, 0, 0]) None)
       @ [''  border-left: 1px solid rgb(0, 0, 0);'', ''  border-right: 1px solid rgb(0, 0, 0);'',
          ''  border-top: 1px solid rgb(0, 0, 0);'']
       @ drop (Suc (index_of ''  border: 1px solid rgb(0, 0, 0);''
                     (collectStyles (strokedRect (Some ''CENTER'') [8, 8, 0, 0]) None)))
           (collectStyles (strokedRect (Some ''CENTER'') [8, 8, 0, 0]) None)"
proof -
  have h: "strokes (strokedRect (Some ''CENTER'') radii) = Some (solidPaint black # [])"
    "strokeWeight (strokedRect (Some ''CENTER'') radii) = Some 1"
    "(1::real) \<noteq> 0" "paint_visible (solidPaint black) \<noteq> Some False"
    "paint_color (solidPaint black) = Some black"
    "strokeAlign (strokedRect (Some ''CENTER'') radii) = Some ''CENTER''" for radii
    by (simp_all add: strokedRect_def solidPaint_def bareProps_def)
  have n: "px 1 = ''1px''" "0 \<le> round2 1" "\<not> round2 1 < 0" by code_simp+
  have c: "rgbaToString black (paint_opacity (solidPaint black)) = ''rgb(0, 0, 0)''"
    by code_simp
  have uniform: "\<not> (case find (\<lambda>s. str_includes s ''border-radius:'')
                       (collectStyles (strokedRect (Some ''CENTER'') [4, 4, 4, 4]) None) of
                  None \<Rightarrow> False | Some r \<Rightarrow> search_radius_top r)"
    by code_simp
  have top: "(case find (\<lambda>s. str_includes s ''border-radius:'')
                       (collectStyles (strokedRect (Some ''CENTER'') [8, 8, 0, 0]) None) of
                  None \<Rightarrow> False | Some r \<Rightarrow> search_radius_top r)"
    by code_simp
  show ?thesis
    using center_stroke_border [OF h, of "[4, 4, 4, 4]" None]
      center_stroke_border [OF h, of "[8, 8, 0, 0]" None] uniform top
    by (simp add: Let_def n c)
qed

text \<open>
  C4 as stated fails for the corner radii [8, 8, 0, 0]: with a CENTER stroke the emitted
  style has \<open>border-left\<close>, \<open>border-right\<close> and \<open>border-top\<close> and no uniform \<open>border\<close>.
\<close>

theorem center_stroke_border_counterexample:
  "strokeAlign (strokedRect (Some ''CENTER'') [8, 8, 0, 0]) = Some ''CENTER''
   \<and> styleLines (strokedRect (Some ''CENTER'') [8, 8, 0, 0]) None
     = [''  border-left: 1px solid rgb(0, 0, 0);'', ''  border-right: 1px solid rgb(0, 0, 0);'',
        ''  border-top: 1px solid rgb(0, 0, 0);'', ''  border-radius: 8px 8px 0px 0px;'']"
  by code_simp

text \<open>
  C5. For a colour with components in [0,1], each channel is rounded to the nearest
  integer, which lies in 0..255. The effective alpha is the opacity argument when it
  is given and the colour's own alpha otherwise. When it equals 1 the result is the
  text \<open>rgb(r, g, b)\<close>, which does not begin with \<open>rgba(\<close>; otherwise it is
  \<open>rgba(r, g, b, a)\<close> with the effective alpha printed.
\<close>

theorem rgbaToString_form:
  assumes "0 \<le> color_r c \<and> color_r c \<le> 1"
      and "0 \<le> color_g c \<and> color_g c \<le> 1"
      and "0 \<le> color_b c \<and> color_b c \<le> 1"
  shows "let R = js_round (color_r c * 255);
             G = js_round (color_g c * 255);
             B = js_round (color_b c * 255);
             eff = (case opacity of Some v \<Rightarrow> v | None \<Rightarrow> color_a c)
         in 0 \<le> R \<and> R \<le> 255 \<and> 0 \<le> G \<and> G \<le> 255 \<and> 0 \<le> B \<and> B \<le> 255
          \<and> \<bar>of_int R - color_r c * 255\<bar> \<le> 1 / 2
          \<and> \<bar>of_int G - color_g c * 255\<bar> \<le> 1 / 2
          \<and> \<bar>of_int B - color_b c * 255\<bar> \<le> 1 / 2
          \<and> (eff = 1 \<longrightarrow>
                rgbaToString c opacity
                  = ''rgb('' @ nat_str (nat R) @ '', '' @ nat_str (nat G) @ '', ''
                      @ nat_str (nat B) @ '')''
                \<and> \<not> prefix ''rgba('' (rgbaToString c opacity))
          \<and> (eff \<noteq> 1 \<longrightarrow>
                rgbaToString c opacity
                  = ''rgba('' @ nat_str (nat R) @ '', '' @ nat_str (nat G) @ '', ''
                      @ nat_str (nat B) @ '', '' @ num_str eff @ '')'')"
proof -
  define R where "R = js_round (color_r c * 255)"
  define G where "G = js_round (color_g c * 255)"
  define B where "B = js_round (color_b c * 255)"
  define eff where "eff = (case opacity of Some v \<Rightarrow> v | None \<Rightarrow> color_a c)"
  have int_str: "num_str (of_int k) = nat_str (nat k)" if "0 \<le> k" for k
    using that by (simp add: num_str_def pos_str_def)
  have rng: "0 \<le> R \<and> R \<le> 255" "0 \<le> G \<and> G \<le> 255" "0 \<le> B \<and> B \<le> 255"
    unfolding R_def G_def B_def using assms js_round_channel by blast+
  have near: "\<bar>of_int R - color_r c * 255\<bar> \<le> 1 / 2"
    "\<bar>of_int G - color_g c * 255\<bar> \<le> 1 / 2" "\<bar>of_int B - color_b c * 255\<bar> \<le> 1 / 2"
    unfolding R_def G_def B_def by (rule js_round_nearest)+
  have opaque: "rgbaToString c opacity
      = ''rgb('' @ nat_str (nat R) @ '', '' @ nat_str (nat G) @ '', '' @ nat_str (nat B) @ '')''"
    if "eff = 1"
    using that rng unfolding rgbaToString_def Let_def R_def G_def B_def eff_def
    by (simp add: int_str)
  have translucent: "rgbaToString c opacity
      = ''rgba('' @ nat_str (nat R) @ '', '' @ nat_str (nat G) @ '', '' @ nat_str (nat B)
          @ '', '' @ num_str eff @ '')''"
    if "eff \<noteq> 1"
    using that rng unfolding rgbaToString_def Let_def R_def G_def B_def eff_def
    by (simp add: int_str)
  have noprefix: "\<not> prefix ''rgba('' (rgbaToString c opacity)" if "eff = 1"
    using opaque [OF that] by simp
  show ?thesis
    unfolding Let_def R_def [symmetric] G_def [symmetric] B_def [symmetric] eff_def [symmetric]
    using rng near opaque translucent noprefix by blast
qed

theorem rgbaToString_form_witness:
  "rgbaToString \<lparr>color_r = 1, color_g = 1/2, color_b = 0, color_a = 1/2\<rparr> (Some 1)
     = ''rgb(255, 128, 0)''
   \<and> rgbaToString \<lparr>color_r = 1, color_g = 1/2, color_b = 0, color_a = 1/2\<rparr> None
     = ''rgba(255, 128, 0, 0.5)''"
proof -
  let ?c = "\<lparr>color_r = 1, color_g = 1/2, color_b = 0, color_a = 1/2\<rparr>"
  have half: "num_str (1/2) = ''0.5''"
    by (simp add: num_str_def pos_str_def frac_def nat_str.simps digit_char_def eval_nat_numeral)
  have a: "rgbaToString ?c (Some 1) = ''rgb(255, 128, 0)''"
    using rgbaToString_form [of ?c "Some 1"]
    by (simp add: Let_def js_round_def nat_str.simps digit_char_def)
  have b: "rgbaToString ?c None = ''rgba(255, 128, 0, 0.5)''"
    using rgbaToString_form [of ?c None]
    by (simp add: Let_def js_round_def nat_str.simps digit_char_def half)
  show ?thesis using a b by simp
qed

text \<open>
  C6, amended. Style resolution has no failing branch on inputs of the declared types;
  incomplete data only switch sections off. Without a bounding box the geometry section
  pushes nothing and no line sets left, top, width, height or min-height. Without a
  style block the text section leaves the lines as they are and no line sets a font,
  letter-spacing, line-height, text-align, color, white-space or word-wrap property. A
  linear-gradient first fill without stops pushes nothing and no line sets a background.
  A visible linear-gradient first fill with stops but without handle positions is not
  omitted: it gives the line \<open>background: transparent\<close>. For the rest of the tree: every
  child of a list yields its fragment, the traversal records an entry for exactly the
  nodes listed by \<open>emitted\<close> (which reads the visibility flag and the kind only), and
  the stylesheet is built rule by rule, each rule from its own entry.
\<close>

theorem incomplete_nodes_degrade:
  "(absoluteBoundingBox node = None \<longrightarrow>
      positionStyles node parent = []
      \<and> (\<forall>x\<in>set (styleLines node parent).
            line_prop x \<notin> {''left'', ''top'', ''width'', ''height'', ''min-height''}))
   \<and> (node_style node = None \<longrightarrow>
        textStyles node styles = styles
        \<and> (\<forall>x\<in>set (styleLines node parent).
              line_prop x \<notin> {''font-family'', ''font-size'', ''font-weight'', ''letter-spacing'',
                              ''line-height'', ''text-align'', ''color'', ''white-space'',
                              ''word-wrap''}))
   \<and> (fills node = Some (fill # rest) \<and> paint_type fill = ''GRADIENT_LINEAR''
        \<and> gradientStops fill = None \<longrightarrow>
        fillStyles node = []
        \<and> (\<forall>x\<in>set (styleLines node parent).
              line_prop x \<notin> {''background'', ''background-color''}))
   \<and> (fills node = Some (fill # rest) \<and> paint_type fill = ''GRADIENT_LINEAR''
        \<and> paint_visible fill \<noteq> Some False \<and> gradientStops fill \<noteq> None
        \<and> gradientHandlePositions fill = None \<longrightarrow>
        fillStyles node = [''  background: transparent;'']
        \<and> ''  background: transparent;'' \<in> set (styleLines node parent))
   \<and> length (fst (childrenHtml cs depth par st)) = length cs
   \<and> map snd (snd (snd (generateHtmlWithStyles tree depth par st)))
       = map snd (snd st) @ emitted tree par
   \<and> generateCssFromNodes (es1 @ e # es2)
       = generateCssFromNodes es1 @ cssRule e @ concat (map cssRule es2)"
proof (intro conjI impI)
  assume nobox: "absoluteBoundingBox node = None"
  then show pos: "positionStyles node parent = []" by (simp add: positionStyles_def)
  show "\<forall>x\<in>set (styleLines node parent).
          line_prop x \<notin> {''left'', ''top'', ''width'', ''height'', ''min-height''}"
  proof (rule absent_props)
    show "line_prop x \<notin> {''left'', ''top'', ''width'', ''height'', ''min-height''}"
      if "x \<in> set (positionStyles node parent)" for x
      using that pos by simp
    show "line_prop x \<notin> {''left'', ''top'', ''width'', ''height'', ''min-height''}"
      if "x \<in> set (fillStyles node)" for x
      using that fill_all [of node] by (auto simp: list_all_iff plain_def)
    show "set textProps \<inter> {''left'', ''top'', ''width'', ''height'', ''min-height''} = {}"
      by (simp add: textProps_def)
  qed simp
next
  assume nostyle: "node_style node = None"
  then show "textStyles node styles = styles" by (simp add: textStyles_id)
  show "\<forall>x\<in>set (styleLines node parent).
          line_prop x \<notin> {''font-family'', ''font-size'', ''font-weight'', ''letter-spacing'',
                          ''line-height'', ''text-align'', ''color'', ''white-space'',
                          ''word-wrap''}"
  proof (rule absent_props)
    show "line_prop x \<notin> {''font-family'', ''font-size'', ''font-weight'', ''letter-spacing'',
                          ''line-height'', ''text-align'', ''color'', ''white-space'',
                          ''word-wrap''}"
      if "x \<in> set (positionStyles node parent)" for x
      using that position_all [of node parent] by (auto simp: list_all_iff plain_def)
    show "line_prop x \<notin> {''font-family'', ''font-size'', ''font-weight'', ''letter-spacing'',
                          ''line-height'', ''text-align'', ''color'', ''white-space'',
                          ''word-wrap''}"
      if "x \<in> set (fillStyles node)" for x
      using that fill_all [of node] by (auto simp: list_all_iff plain_def)
    show "set textProps \<inter> {''font-family'', ''font-size'', ''font-weight'', ''letter-spacing'',
                          ''line-height'', ''text-align'', ''color'', ''white-space'',
                          ''word-wrap''} = {}"
      if "node_style node \<noteq> None"
      using that nostyle by contradiction
  qed simp
next
  assume a: "fills node = Some (fill # rest) \<and> paint_type fill = ''GRADIENT_LINEAR''
             \<and> gradientStops fill = None"
  then show nofill: "fillStyles node = []" by (simp add: fillStyles_def)
  show "\<forall>x\<in>set (styleLines node parent). line_prop x \<notin> {''background'', ''background-color''}"
  proof (rule absent_props)
    show "line_prop x \<notin> {''background'', ''background-color''}"
      if "x \<in> set (positionStyles node parent)" for x
      using that position_all [of node parent] by (auto simp: list_all_iff plain_def)
    show "line_prop x \<notin> {''background'', ''background-color''}"
      if "x \<in> set (fillStyles node)" for x
      using that nofill by simp
    show "set textProps \<inter> {''background'', ''background-color''} = {}"
      by (simp add: textProps_def)
  qed simp
next
  assume a: "fills node = Some (fill # rest) \<and> paint_type fill = ''GRADIENT_LINEAR''
             \<and> paint_visible fill \<noteq> Some False \<and> gradientStops fill \<noteq> None
             \<and> gradientHandlePositions fill = None"
  then have g: "generateLinearGradient fill = ''transparent''"
    by (auto simp: generateLinearGradient_def)
  with a show f: "fillStyles node = [''  background: transparent;'']"
    by (auto simp: fillStyles_def)
  have nobg: "\<not> str_includes ''  background: transparent;'' ''background-color''"
    by code_simp
  have noborder: "\<not> match_border_line ''  background: transparent;''"
    by code_simp
  have "''  background: transparent;'' \<in> set (collectStyles node parent)"
    using f nobg by (intro collect_keeps) auto
  then show "''  background: transparent;'' \<in> set (styleLines node parent)"
    using noborder by (rule styleLines_keeps)
next
  show "length (fst (childrenHtml cs depth par st)) = length cs"
    by (rule childrenHtml_length)
  show "map snd (snd (snd (generateHtmlWithStyles tree depth par st)))
          = map snd (snd st) @ emitted tree par"
    by (simp add: gen_state register_nodes)
  show "generateCssFromNodes (es1 @ e # es2)
          = generateCssFromNodes es1 @ cssRule e @ concat (map cssRule es2)"
    by (rule css_append)
qed

theorem incomplete_nodes_degrade_witness:
  "positionStyles (bareProps ''1:1'' ''RECTANGLE'') None = []
   \<and> textStyles (textNode None None) [] = []
   \<and> fillStyles (gradientRect None None) = []
   \<and> ''  background: transparent;''
       \<in> set (styleLines (gradientRect (Some [\<lparr>stop_position = 0, stop_color = black\<rparr>]) None) None)"
proof -
  let ?stops = "Some [\<lparr>stop_position = 0, stop_color = black\<rparr>]"
  have a: "absoluteBoundingBox (bareProps ''1:1'' ''RECTANGLE'') = None"
    by (simp add: bareProps_def)
  have b: "node_style (textNode None None) = None"
    by (simp add: textNode_def)
  have c: "fills (gradientRect None None) = Some (gradientPaint None None # [])
           \<and> paint_type (gradientPaint None None) = ''GRADIENT_LINEAR''
           \<and> gradientStops (gradientPaint None None) = None"
    by (simp add: gradientRect_def gradientPaint_def)
  have d: "fills (gradientRect ?stops None) = Some (gradientPaint ?stops None # [])
           \<and> paint_type (gradientPaint ?stops None) = ''GRADIENT_LINEAR''
           \<and> paint_visible (gradientPaint ?stops None) \<noteq> Some False
           \<and> gradientStops (gradientPaint ?stops None) \<noteq> None
           \<and> gradientHandlePositions (gradientPaint ?stops None) = None"
    by (simp add: gradientRect_def gradientPaint_def)
  have 1: "positionStyles (bareProps ''1:1'' ''RECTANGLE'') None = []"
    by (rule incomplete_nodes_degrade [where node = "bareProps ''1:1'' ''RECTANGLE''"
          and parent = None, THEN conjunct1, THEN mp, OF a, THEN conjunct1])
  have 2: "textStyles (textNode None None) [] = []"
    by (rule incomplete_nodes_degrade [where node = "textNode None None" and styles = "[]",
          THEN conjunct2, THEN conjunct1, THEN mp, OF b, THEN conjunct1])
  have 3: "fillStyles (gradientRect None None) = []"
    by (rule incomplete_nodes_degrade [where node = "gradientRect None None"
          and fill = "gradientPaint None None" and rest = "[]",
          THEN conjunct2, THEN conjunct2, THEN conjunct1, THEN mp, OF c, THEN conjunct1])
  have 4: "''  background: transparent;'' \<in> set (styleLines (gradientRect ?stops None) None)"
    by (rule incomplete_nodes_degrade [where node = "gradientRect ?stops None" and parent = None
          and fill = "gradientPaint ?stops None" and rest = "[]",
          THEN conjunct2, THEN conjunct2, THEN conjunct2, THEN conjunct1, THEN mp, OF d,
          THEN conjunct2])
  show ?thesis using 1 2 3 4 by simp
qed

text \<open>
  C6 as stated fails for a gradient fill whose handle positions are absent: the rule is
  not omitted, the fill is emitted as \<open>background: transparent\<close>.
\<close>

theorem incomplete_nodes_degrade_counterexample:
  "gradientHandlePositions (gradientPaint (Some [\<lparr>stop_position = 0, stop_color = black\<rparr>]) None) = None
   \<and> styleLines (gradientRect (Some [\<lparr>stop_position = 0, stop_color = black\<rparr>]) None) None
     = [''  background: transparent;'']"
  by code_simp

text \<open>
  C7. A node whose visibility flag is \<open>false\<close> returns the empty fragment and leaves the
  class table, the counter and the list of style entries as they were, whatever its
  subtree holds: the subtree is never visited. Converted on its own it gives no markup
  and the stylesheet of the two fixed rules. Among siblings, the run over the list with
  the node ends in the same state as the run over the list without it, so the
  stylesheet is the same, and its fragment is the empty string at its place in the
  list of fragments (which the parent then joins with line feeds).
\<close>

theorem invisible_node_contributes_nothing:
  assumes "node_visible (props node) = Some False"
  shows "generateHtmlWithStyles node depth parent st = ([], st)
       \<and> fst (convertWithStyles conv node) = ([], cssHeader)
       \<and> (case childrenHtml xs depth parent st of (hs1, st1) \<Rightarrow>
            (case childrenHtml ys depth parent st1 of (hs2, st2) \<Rightarrow>
               childrenHtml (xs @ node # ys) depth parent st = (hs1 @ [] # hs2, st2)
               \<and> childrenHtml (xs @ ys) depth parent st = (hs1 @ hs2, st2)))"
proof -
  obtain p cs where node: "node = FigmaNode p cs" by (cases node)
  with assms have inv: "node_visible p = Some False" by simp
  have g: "generateHtmlWithStyles node d par s = ([], s)" for d par s
    unfolding node using inv by (rule gen_invisible)
  have c: "fst (convertWithStyles conv node) = ([], cssHeader)"
    by (simp add: convertWithStyles_def Let_def g generateCssFromNodes_def)
  have ch: "childrenHtml (node # ys) depth parent s
              = (case childrenHtml ys depth parent s of (hs2, st2) \<Rightarrow> ([] # hs2, st2))" for s
    by (simp add: g split: prod.split)
  show ?thesis
    using g [of depth parent st] c
    by (simp add: childrenHtml_append ch split: prod.split del: childrenHtml.simps)
qed

theorem invisible_node_contributes_nothing_witness:
  "fst (convertWithStyles newConverter hiddenFrame) = ([], cssHeader)"
proof -
  have "node_visible (props hiddenFrame) = Some False"
    by (simp add: hiddenFrame_def bareProps_def)
  then show ?thesis
    using invisible_node_contributes_nothing [of hiddenFrame] by blast
qed

text \<open>
  C8. \<open>convertWithStyles\<close> clears the class table and the counter before it does
  anything else, so the two texts it returns do not depend on the instance it is called
  on: two instances give the same markup and stylesheet, and so does a second call on
  the instance the first call left behind. Within one conversion the class names are
  generated once per node id from a counter that only grows: two style entries carry
  the same class name exactly when their nodes have the same id, so nodes with distinct
  ids never share an identifier.
\<close>

theorem conversion_deterministic:
  "fst (convertWithStyles c1 node) = fst (convertWithStyles c2 node)
   \<and> fst (convertWithStyles (snd (convertWithStyles c1 node)) node) = fst (convertWithStyles c1 node)
   \<and> (let entries = snd (snd (generateHtmlWithStyles node 0 None
                          (c1\<lparr>cssClasses := Map.empty, classCounter := 0\<rparr>, [])))
      in \<forall>(name1, n1, p1)\<in>set entries. \<forall>(name2, n2, p2)\<in>set entries.
           name1 = name2 \<longleftrightarrow> node_id (props n1) = node_id (props n2))"
proof -
  have reset: "c\<lparr>cssClasses := Map.empty, classCounter := 0\<rparr>
                 = c'\<lparr>cssClasses := Map.empty, classCounter := 0\<rparr>" for c c' :: Converter
    by simp
  have same: "fst (convertWithStyles c node) = fst (convertWithStyles c' node)" for c c'
    unfolding convertWithStyles_def Let_def reset [of c c'] by simp
  let ?init = "(c1\<lparr>cssClasses := Map.empty, classCounter := 0\<rparr>, [])"
  have "tidy ?init" by (simp add: tidy_def)
  then have "tidy (snd (generateHtmlWithStyles node 0 None ?init))"
    by (simp add: gen_state foldl_register_tidy)
  then have unique: "name1 = name2 \<longleftrightarrow> node_id (props n1) = node_id (props n2)"
    if "(name1, n1, p1) \<in> set (snd (snd (generateHtmlWithStyles node 0 None ?init)))"
       "(name2, n2, p2) \<in> set (snd (snd (generateHtmlWithStyles node 0 None ?init)))"
    for name1 n1 p1 name2 n2 p2
    using that by (rule tidy_unique)
  have third: "(fst e1 = fst e2)
                 = (node_id (props (fst (snd e1))) = node_id (props (fst (snd e2))))"
    if "e1 \<in> set (snd (snd (generateHtmlWithStyles node 0 None ?init)))"
       "e2 \<in> set (snd (snd (generateHtmlWithStyles node 0 None ?init)))" for e1 e2
    using unique [of "fst e1" "fst (snd e1)" "snd (snd e1)" "fst e2" "fst (snd e2)" "snd (snd e2)"]
      that by simp
  show ?thesis
    unfolding Let_def
  proof (intro conjI)
    show "fst (convertWithStyles c1 node) = fst (convertWithStyles c2 node)" by (rule same)
    show "fst (convertWithStyles (snd (convertWithStyles c1 node)) node)
            = fst (convertWithStyles c1 node)" by (rule same)
    show "\<forall>(name1, n1, p1)\<in>set (snd (snd (generateHtmlWithStyles node 0 None ?init))).
            \<forall>(name2, n2, p2)\<in>set (snd (snd (generateHtmlWithStyles node 0 None ?init))).
              name1 = name2 \<longleftrightarrow> node_id (props n1) = node_id (props n2)"
      using third by (simp add: case_prod_beta)
  qed
qed

theorem conversion_deterministic_witness:
  "fst (convertWithStyles (snd (convertWithStyles newConverter smallTree)) smallTree)
     = fst (convertWithStyles newConverter smallTree)
   \<and> map fst (snd (snd (generateHtmlWithStyles smallTree 0 None
                 (newConverter\<lparr>cssClasses := Map.empty, classCounter := 0\<rparr>, []))))
     = [''figma-node-0'', ''figma-node-1'']"
proof -
  have "map fst (snd (snd (generateHtmlWithStyles smallTree 0 None
                 (newConverter\<lparr>cssClasses := Map.empty, classCounter := 0\<rparr>, []))))
     = [''figma-node-0'', ''figma-node-1'']"
    by code_simp
  then show ?thesis
    using conversion_deterministic [of newConverter smallTree newConverter] by blast
qed


text \<open>
  C10, amended. The text colour is set inside the block guarded by
  \<open>node.type === 'TEXT' && node.style\<close>. For a text node that carries a style block and
  whose first fill is SOLID with a colour, the style lines contain the \<open>color\<close> line of
  that fill whatever the fill's visibility flag is; when the flag is \<open>false\<close> the
  background section, which checks it, pushes nothing.
\<close>

theorem text_color_ignores_fill_visibility:
  assumes "node_type node = ''TEXT''"
      and "node_style node = Some ts"
      and "fills node = Some (fill # rest)"
      and "paint_type fill = ''SOLID''"
      and "paint_color fill = Some col"
  shows "''  color: '' @ rgbaToString col (paint_opacity fill) @ '';'' \<in> set (styleLines node parent)
       \<and> (paint_visible fill = Some False \<longrightarrow> fillStyles node = [])"
proof -
  define line where "line = ''  color: '' @ rgbaToString col (paint_opacity fill) @ '';''"
  have nobg: "\<not> str_includes line ''background-color''"
    by (auto simp: line_def intro!: no_k_no_bg)
  have noborder: "\<not> match_border_line line" by (simp add: line_def line_eval)
  have tc: "line \<in> set (textColor node st)" for st
  proof -
    have "line \<in> set (remove_first (\<lambda>s. str_includes s ''background-color'') (st @ [line]))"
      using nobg by (intro remove_first_keeps) simp_all
    then show ?thesis using assms(3-5) by (simp add: textColor_def line_def)
  qed
  have "line \<in> set (textStyles node st)" for st
    using assms(1,2) tc by (simp add: textStyles_def)
  then have "line \<in> set (layoutStyles node parent (textStyles node st))" for st
    by (rule layoutStyles_keeps)
  then have "line \<in> set (collectStyles node parent)" by (simp add: collectStyles_def Let_def)
  then have "line \<in> set (styleLines node parent)" using noborder by (rule styleLines_keeps)
  moreover have "fillStyles node = []" if "paint_visible fill = Some False"
    using that assms(3) by (simp add: fillStyles_def)
  ultimately show ?thesis by (simp add: line_def)
qed

theorem text_color_ignores_fill_visibility_witness:
  "''  color: rgb(0, 0, 0);'' \<in> set (styleLines (textNode (Some plainStyle) (Some False)) None)
   \<and> fillStyles (textNode (Some plainStyle) (Some False)) = []"
proof -
  let ?n = "textNode (Some plainStyle) (Some False)"
  let ?f = "(solidPaint black)\<lparr>paint_visible := Some False\<rparr>"
  have h: "node_type ?n = ''TEXT''" "node_style ?n = Some plainStyle"
    "fills ?n = Some (?f # [])" "paint_type ?f = ''SOLID''" "paint_color ?f = Some black"
    by (simp_all add: textNode_def solidPaint_def bareProps_def)
  have c: "rgbaToString black (paint_opacity (solidPaint black)) = ''rgb(0, 0, 0)''"
    by code_simp
  show ?thesis
    using text_color_ignores_fill_visibility [OF h, of None] by (simp add: c)
qed

text \<open>
  C10 as stated fails for a text node without a style block: its solid fill gives a
  \<open>background-color\<close> line and no \<open>color\<close> line.
\<close>

theorem text_color_without_style_counterexample:
  "node_type (textNode None None) = ''TEXT''
   \<and> fills (textNode None None) = Some [solidPaint black]
   \<and> styleLines (textNode None None) None = [''  background-color: rgb(0, 0, 0);'']"
  by code_simp

end
